theory Spec2Isabelle
  imports Main "HOL-Library.Sublist" "HOL-Library.AList"
begin

section \<open>Chat data model\<close>

text \<open>
  The chat structures of the agent runtime, field by field as the Go structs declare
  them. Go strings are byte strings, so \<open>string\<close> (a list of bytes) and
  \<open>length\<close> model \<open>string\<close> and \<open>len\<close>. A field that another struct
  declares under the same name carries the struct's initials as a prefix.
\<close>

record FuncCall =
  Name :: string
  Arguments :: string

record ToolCall =
  ID :: string
  Type :: string
  Function :: FuncCall

record Message =
  Role :: string
  Content :: string
  ToolCalls :: "ToolCall list"
  ToolCallID :: string

section \<open>Byte-string primitives\<close>

text \<open>
  \<open>strings.HasPrefix s p\<close> is \<open>prefix p s\<close> and \<open>strings.HasSuffix s p\<close> is
  \<open>suffix p s\<close>. \<open>strings.Index\<close> returns the position of the first occurrence
  of \<open>sep\<close>, and \<open>-1\<close> when there is none; here \<open>None\<close> stands for \<open>-1\<close>.
\<close>

fun strIndex :: "string \<Rightarrow> string \<Rightarrow> nat option" where
  "strIndex [] sep = (if sep = [] then Some 0 else None)"
| "strIndex (c # cs) sep =
     (if prefix sep (c # cs) then Some 0 else map_option Suc (strIndex cs sep))"

section \<open>thinkFilter\<close>

text \<open>
  The filter owns two fields, \<open>active\<close> and \<open>pending\<close>, and four callbacks. The
  callbacks are effects: each call is recorded as an event, in call order.
\<close>

datatype event =
    WriteThink string
  | WriteContent string
  | OnThinkStart
  | OnThinkEnd

record thinkFilter =
  active :: bool
  pending :: string

text \<open>
  \<open>partialSuffix\<close>: the loop counts \<open>n\<close> down from
  \<open>min (len tag - 1) (len s)\<close> to \<open>1\<close>. For the empty tag Go computes
  \<open>max = -1\<close> and the loop body never runs; truncating subtraction on \<open>nat\<close>
  gives \<open>0\<close> there, with the same result.
\<close>

fun partialSuffix_loop :: "string \<Rightarrow> string \<Rightarrow> nat \<Rightarrow> nat" where
  "partialSuffix_loop s tag 0 = 0"
| "partialSuffix_loop s tag (Suc n) =
     (if suffix (take (Suc n) tag) s then Suc n else partialSuffix_loop s tag n)"

definition partialSuffix :: "string \<Rightarrow> string \<Rightarrow> nat" where
  "partialSuffix s tag = partialSuffix_loop s tag (min (length tag - 1) (length s))"

text \<open>
  The body of \<open>process\<close> after \<open>f.pending += chunk\<close>: the \<open>for f.pending != ""\<close>
  loop. \<open>continue\<close> is the recursive call, \<open>return\<close> and the exit of the loop
  end the recursion.
\<close>

function process_loop :: "thinkFilter \<Rightarrow> thinkFilter \<times> event list" where
  "process_loop f =
     (if pending f = [] then (f, [])
      else if \<not> active f then
        (case strIndex (pending f) ''<think>'' of
           Some idx \<Rightarrow>
             (let out = (if idx > 0 then [WriteContent (take idx (pending f))] else []);
                  r = process_loop
                        (f\<lparr>active := True,
                           pending := drop (idx + length ''<think>'') (pending f)\<rparr>)
              in (fst r, out @ OnThinkStart # snd r))
         | None \<Rightarrow>
             (let n = partialSuffix (pending f) ''<think>'' in
              if n > 0 then
                (f\<lparr>pending := drop (length (pending f) - n) (pending f)\<rparr>,
                 [WriteContent (take (length (pending f) - n) (pending f))])
              else (f\<lparr>pending := []\<rparr>, [WriteContent (pending f)])))
      else
        (case strIndex (pending f) ''</think>'' of
           Some idx \<Rightarrow>
             (let out = (if idx > 0 then [WriteThink (take idx (pending f))] else []);
                  r = process_loop
                        (f\<lparr>active := False,
                           pending := drop (idx + length ''</think>'') (pending f)\<rparr>)
              in (fst r, out @ OnThinkEnd # snd r))
         | None \<Rightarrow>
             (let n = partialSuffix (pending f) ''</think>'' in
              if n > 0 then
                (let safe = take (length (pending f) - n) (pending f) in
                 (f\<lparr>pending := drop (length (pending f) - n) (pending f)\<rparr>,
                  if safe \<noteq> [] then [WriteThink safe] else []))
              else (f\<lparr>pending := []\<rparr>, [WriteThink (pending f)]))))"
  by pat_completeness auto
termination
  by (relation "measure (\<lambda>f. length (pending f))") auto

definition process :: "thinkFilter \<Rightarrow> string \<Rightarrow> thinkFilter \<times> event list" where
  "process f chunk = process_loop (f\<lparr>pending := pending f @ chunk\<rparr>)"

definition flush :: "thinkFilter \<Rightarrow> thinkFilter \<times> event list" where
  "flush f =
     (if pending f = [] then (f, [])
      else (f\<lparr>pending := [], active := False\<rparr>,
            if active f then [WriteThink (pending f), OnThinkEnd]
            else [WriteContent (pending f)]))"

text \<open>
  Observation of the callbacks: \<open>content_of\<close> is the concatenation of everything
  passed to \<open>writeContent\<close>, in call order.
\<close>

fun content_of :: "event list \<Rightarrow> string" where
  "content_of [] = []"
| "content_of (WriteContent s # es) = s @ content_of es"
| "content_of (e # es) = content_of es"

text \<open>
  \<open>newFilter\<close> is the filter as \<open>doStream\<close> constructs it (zero values of
  \<open>active\<close> and \<open>pending\<close>). \<open>feed\<close> pushes the chunks one by one through
  \<open>process\<close>; \<open>filter_events\<close> does so on a new filter and ends with \<open>flush\<close>.
\<close>

definition newFilter :: thinkFilter where
  "newFilter = \<lparr>active = False, pending = []\<rparr>"

fun feed :: "thinkFilter \<Rightarrow> string list \<Rightarrow> thinkFilter \<times> event list" where
  "feed f [] = (f, [])"
| "feed f (c # cs) =
     (let r1 = process f c; r2 = feed (fst r1) cs in (fst r2, snd r1 @ snd r2))"

definition filter_events :: "string list \<Rightarrow> event list" where
  "filter_events chunks =
     (let r = feed newFilter chunks in snd r @ snd (flush (fst r)))"

text \<open>
  Two views used to reason about both modes of the loop at once: the marker awaited in
  a mode, the part of a written text that is visible content in a mode, and the pair of
  final state and visible content of a run of the loop.
\<close>

definition tag_of :: "bool \<Rightarrow> string" where
  "tag_of a = (if a then ''</think>'' else ''<think>'')"

definition vis :: "bool \<Rightarrow> string \<Rightarrow> string" where
  "vis a x = (if a then [] else x)"

definition obs :: "thinkFilter \<Rightarrow> thinkFilter \<times> string" where
  "obs f = (fst (process_loop f), content_of (snd (process_loop f)))"

text \<open>
  The buffer invariant of the filter: \<open>pending\<close> is a proper prefix of the marker
  that the current mode waits for.
\<close>

definition pending_ok :: "thinkFilter \<Rightarrow> bool" where
  "pending_ok f =
     (if active f then strict_prefix (pending f) ''</think>''
      else strict_prefix (pending f) ''<think>'')"

section \<open>Token budget\<close>

text \<open>
  Go's \<open>int\<close> is 64 bits wide here and every quantity below is a sum of string lengths
  and small constants, far from the range's ends, so \<open>int\<close> models it. \<open>chars\<close> is
  never negative, so Go's truncating \<open>/\<close> agrees with \<open>div\<close>.
\<close>

definition estimateTokens :: "Message list \<Rightarrow> int" where
  "estimateTokens messages =
     (let chars =
        foldl (\<lambda>chars m.
          foldl (\<lambda>chars tc.
              chars + int (length (Name (Function tc)))
                    + int (length (Arguments (Function tc))) + 20)
            (chars + int (length (Content m)) + int (length (Role m)) + 4)
            (ToolCalls m))
          0 messages
      in chars div 3 + 50)"

definition minOutput :: int where
  "minOutput = 256"

definition capMaxTokens :: "int \<Rightarrow> int \<Rightarrow> Message list \<Rightarrow> int" where
  "capMaxTokens contextLimit maxTokens messages =
     (if contextLimit \<le> 0 then maxTokens
      else
        let estimated = estimateTokens messages;
            available = contextLimit - estimated
        in if available < minOutput then minOutput
           else if available < maxTokens then available
           else maxTokens)"

section \<open>The streaming chat endpoint\<close>

text \<open>
  The structures of one streamed chunk. \<open>Content\<close> and \<open>ReasoningContent\<close> are
  pointers in Go (\<open>*string\<close>): \<open>None\<close> is \<open>nil\<close>.
\<close>

record streamFuncCall =
  sfc_Name :: string
  sfc_Arguments :: string

record streamToolCall =
  Index :: int
  stc_ID :: string
  stc_Type :: string
  stc_Function :: streamFuncCall

record streamDelta =
  sd_Role :: string
  sd_Content :: "string option"
  ReasoningContent :: "string option"
  sd_ToolCalls :: "streamToolCall list"

record streamChoice =
  Delta :: streamDelta
  FinishReason :: "string option"

record streamChunk =
  Choices :: "streamChoice list"

record StreamResult =
  sr_Content :: string
  sr_ToolCalls :: "ToolCall list"

text \<open>
  \<open>'d\<close> stands for \<open>tools.Definition\<close>, which the loops only pass on. A \<open>nil\<close>
  slice of definitions and an empty one are the same request (\<open>omitempty\<close>): both
  are \<open>[]\<close>.
\<close>

record 'd chatRequest =
  Model :: string
  Messages :: "Message list"
  Tools :: "'d list"
  Stream :: bool
  MaxTokens :: int

text \<open>
  What the HTTP client gives back. \<open>Body\<close> is what \<open>io.ReadAll\<close> reads;
  \<open>scanLines\<close> are the lines a \<open>bufio.Scanner\<close> with the 256 KiB buffer of the
  source delivers from the body until \<open>Scan\<close> returns false, and \<open>scanErr\<close> is
  what \<open>scanner.Err()\<close> reports then (\<open>None\<close> is \<open>nil\<close>).
\<close>

record httpResponse =
  StatusCode :: int
  Header :: "(string \<times> string) list"
  Body :: string
  scanLines :: "string list"
  scanErr :: "string option"

text \<open>
  One HTTP exchange, as far as it gets: \<open>json.Marshal\<close> fails, \<open>http.NewRequest\<close>
  fails, \<open>http.DefaultClient.Do\<close> fails, or a response arrives. The strings are the
  messages of the Go errors.
\<close>

datatype 'r exchange =
    MarshalFails string
  | NewRequestFails string
  | DoFails string
  | Responds 'r

text \<open>
  The environment of \<open>doStream\<close>: the endpoint (model and transport), which answers
  a request in a world \<open>'w\<close> and changes the world, and \<open>json.Unmarshal\<close> into a
  \<open>streamChunk\<close> (\<open>None\<close> when it returns an error).
\<close>

record ('d, 'w) chatEnv =
  post :: "'d chatRequest \<Rightarrow> 'w \<Rightarrow> httpResponse exchange \<times> 'w"
  unmarshalChunk :: "string \<Rightarrow> streamChunk option"

datatype stream_error =
    MarshalError string
  | NewRequestError string
  | RequestFailed string
  | APIError int string
  | StreamReadError string

text \<open>
  \<open>tcMap\<close> is a Go map from slot index to a pointer to the call under construction.
  It is an association list with distinct keys here: \<open>map_of\<close> is the lookup,
  \<open>AList.update\<close> stores (replacing the entry of a key already present, adding
  one otherwise) and \<open>length\<close> is \<open>len\<close>. Writing through the pointer
  \<open>existing\<close> is storing the changed call under the same key.
\<close>

type_synonym toolCallMap = "(int \<times> ToolCall) list"

definition tcMap_step :: "toolCallMap \<Rightarrow> streamToolCall \<Rightarrow> toolCallMap" where
  "tcMap_step tcMap tc =
     (case map_of tcMap (Index tc) of
        Some existing \<Rightarrow>
          (let e1 = (if stc_ID tc \<noteq> [] then existing\<lparr>ID := stc_ID tc\<rparr> else existing);
               e2 = (if sfc_Name (stc_Function tc) \<noteq> []
                     then e1\<lparr>Function := (Function e1)\<lparr>Name := sfc_Name (stc_Function tc)\<rparr>\<rparr>
                     else e1);
               e3 = e2\<lparr>Function := (Function e2)
                      \<lparr>Arguments := Arguments (Function e2) @ sfc_Arguments (stc_Function tc)\<rparr>\<rparr>
           in AList.update (Index tc) e3 tcMap)
      | None \<Rightarrow>
          AList.update (Index tc)
            \<lparr>ID = stc_ID tc, Type = stc_Type tc,
             Function = \<lparr>Name = sfc_Name (stc_Function tc),
                         Arguments = sfc_Arguments (stc_Function tc)\<rparr>\<rparr>
            tcMap)"

text \<open>
  The state of the scanning loop that the result depends on: \<open>result.Content\<close> and
  \<open>tcMap\<close>. What the loop prints to the terminal (through the thinkFilter or
  directly) is not part of the result and is left out.
\<close>

record decodeState =
  content :: string
  tcMap :: toolCallMap

definition doStream_choice :: "decodeState \<Rightarrow> streamChoice \<Rightarrow> decodeState" where
  "doStream_choice st ch =
     (let st1 = (case sd_Content (Delta ch) of
                   Some c \<Rightarrow> if c \<noteq> [] then st\<lparr>content := content st @ c\<rparr> else st
                 | None \<Rightarrow> st)
      in st1\<lparr>tcMap := foldl tcMap_step (tcMap st1) (sd_ToolCalls (Delta ch))\<rparr>)"

text \<open>
  The \<open>for scanner.Scan()\<close> loop. The flag of the result tells how the loop ended:
  \<open>True\<close> when \<open>Scan\<close> returned false, \<open>False\<close> at the \<open>break\<close> on
  \<open>[DONE]\<close>, after which the scanner has reported no error.
\<close>

fun doStream_scan ::
  "(string \<Rightarrow> streamChunk option) \<Rightarrow> string list \<Rightarrow> decodeState \<Rightarrow> decodeState \<times> bool"
where
  "doStream_scan unm [] st = (st, True)"
| "doStream_scan unm (line # rest) st =
     (if \<not> prefix ''data: '' line then doStream_scan unm rest st
      else
        let data = drop (length ''data: '') line in
        if data = ''[DONE]'' then (st, False)
        else
          (case unm data of
             None \<Rightarrow> doStream_scan unm rest st
           | Some chunk \<Rightarrow>
               doStream_scan unm rest (foldl doStream_choice st (Choices chunk))))"

text \<open>
  The final loop \<open>for i := 0; i < len(tcMap); i++\<close>, which appends the call of slot
  \<open>i\<close> when the map has one.
\<close>

definition finalize :: "toolCallMap \<Rightarrow> ToolCall list" where
  "finalize m = List.map_filter (\<lambda>i. map_of m (int i)) [0..<length m]"

definition doStream ::
  "('d, 'w) chatEnv \<Rightarrow> 'd chatRequest \<Rightarrow> 'w \<Rightarrow> (stream_error + StreamResult) \<times> 'w"
where
  "doStream env reqBody w =
     (case post env reqBody w of
        (MarshalFails e, w') \<Rightarrow> (Inl (MarshalError e), w')
      | (NewRequestFails e, w') \<Rightarrow> (Inl (NewRequestError e), w')
      | (DoFails e, w') \<Rightarrow> (Inl (RequestFailed e), w')
      | (Responds resp, w') \<Rightarrow>
          if StatusCode resp \<noteq> 200 then (Inl (APIError (StatusCode resp) (Body resp)), w')
          else
            (case doStream_scan (unmarshalChunk env) (scanLines resp)
                    \<lparr>content = [], tcMap = []\<rparr> of
               (st, exhausted) \<Rightarrow>
                 (case (if exhausted then scanErr resp else None) of
                    Some e \<Rightarrow> (Inl (StreamReadError e), w')
                  | None \<Rightarrow>
                      (Inr \<lparr>sr_Content = content st, sr_ToolCalls = finalize (tcMap st)\<rparr>,
                       w'))))"

text \<open>
  Views of a stream for stating what the decoder computes: the tool-call fragments of
  a list of chunks in the order the loop visits them, and the calls the decoder
  finalizes from a list of fragments.
\<close>

definition fragments_of :: "streamChunk list \<Rightarrow> streamToolCall list" where
  "fragments_of chunks =
     concat (map (\<lambda>chunk. concat (map (\<lambda>ch. sd_ToolCalls (Delta ch)) (Choices chunk))) chunks)"

definition decodeChunks :: "streamChunk list \<Rightarrow> decodeState" where
  "decodeChunks chunks =
     foldl (\<lambda>st chunk. foldl doStream_choice st (Choices chunk))
       \<lparr>content = [], tcMap = []\<rparr> chunks"

text \<open>
  \<open>arrives_as c gs\<close>: the fragments \<open>gs\<close> of one slot, in arrival order, deliver the
  call \<open>c\<close> with its id, type and name whole in the first fragment, its arguments cut
  into the pieces the fragments carry, and later fragments that leave id and name
  empty or repeat them.
\<close>

fun arrives_as :: "ToolCall \<Rightarrow> streamToolCall list \<Rightarrow> bool" where
  "arrives_as c [] = False"
| "arrives_as c (g # gs) =
     (stc_ID g = ID c \<and> stc_Type g = Type c \<and> sfc_Name (stc_Function g) = Name (Function c) \<and>
      concat (map (\<lambda>h. sfc_Arguments (stc_Function h)) (g # gs)) = Arguments (Function c) \<and>
      list_all (\<lambda>h. (stc_ID h = [] \<or> stc_ID h = ID c) \<and>
                    (sfc_Name (stc_Function h) = [] \<or> sfc_Name (stc_Function h) = Name (Function c)))
        gs)"

text \<open>The fragment that delivers a whole call in slot \<open>i\<close>.\<close>

definition atomic_fragment :: "int \<Rightarrow> ToolCall \<Rightarrow> streamToolCall" where
  "atomic_fragment i c =
     \<lparr>Index = i, stc_ID = ID c, stc_Type = Type c,
      stc_Function = \<lparr>sfc_Name = Name (Function c), sfc_Arguments = Arguments (Function c)\<rparr>\<rparr>"

definition chunk_of :: "streamToolCall list \<Rightarrow> streamChunk" where
  "chunk_of frs =
     \<lparr>Choices = [\<lparr>Delta = \<lparr>sd_Role = [], sd_Content = None, ReasoningContent = None,
                              sd_ToolCalls = frs\<rparr>,
                   FinishReason = None\<rparr>]\<rparr>"

text \<open>
  The chunks the scanning loop decodes from the lines, in order: the lines with the
  prefix \<open>data: \<close> before \<open>[DONE]\<close> whose payload unmarshals.
\<close>

fun chunks_of_lines :: "(string \<Rightarrow> streamChunk option) \<Rightarrow> string list \<Rightarrow> streamChunk list" where
  "chunks_of_lines unm [] = []"
| "chunks_of_lines unm (line # rest) =
     (if \<not> prefix ''data: '' line then chunks_of_lines unm rest
      else
        let data = drop (length ''data: '') line in
        if data = ''[DONE]'' then []
        else
          (case unm data of
             None \<Rightarrow> chunks_of_lines unm rest
           | Some chunk \<Rightarrow> chunk # chunks_of_lines unm rest))"

section \<open>stripThinkTags\<close>

text \<open>
  \<open>reThinkTags.ReplaceAllString(s, "")\<close> for the expression
  \<open>(?s)<think>.*?</think>\s*\<close>: the leftmost match starts at the first \<open><think>\<close>
  that has a \<open></think>\<close> after it, the lazy \<open>.*?\<close> ends at the first such
  \<open></think>\<close>, and \<open>\s*\<close> takes all the following bytes of the class
  \<open>[\t\n\f\r ]\<close>; the search goes on behind the match. When the first
  \<open><think>\<close> has no \<open></think>\<close> behind it, no later one has.
\<close>

definition isReSpace :: "char \<Rightarrow> bool" where
  "isReSpace c = (c \<in> set [CHR 0x09, CHR 0x0A, CHR 0x0C, CHR 0x0D, CHR 0x20])"

function reThinkTags_remove :: "string \<Rightarrow> string" where
  "reThinkTags_remove s =
     (case strIndex s ''<think>'' of
        None \<Rightarrow> s
      | Some i \<Rightarrow>
          (case strIndex (drop (i + length ''<think>'') s) ''</think>'' of
             None \<Rightarrow> s
           | Some j \<Rightarrow>
               take i s @
               reThinkTags_remove
                 (dropWhile isReSpace
                    (drop (j + length ''</think>'') (drop (i + length ''<think>'') s)))))"
  by pat_completeness auto
termination
proof (relation "measure length")
  show "wf (measure length)" by simp
next
  fix s :: string and i j :: nat
  assume "strIndex s ''<think>'' = Some i"
  have "length (dropWhile isReSpace
          (drop (j + length ''</think>'') (drop (i + length ''<think>'') s))) \<le>
        length (drop (j + length ''</think>'') (drop (i + length ''<think>'') s))"
    by (rule length_dropWhile_le)
  moreover have "s \<noteq> []"
    using \<open>strIndex s ''<think>'' = Some i\<close> by (cases s) auto
  then have "length (drop (j + length ''</think>'') (drop (i + length ''<think>'') s)) < length s"
    by simp
  ultimately show "(dropWhile isReSpace
          (drop (j + length ''</think>'') (drop (i + length ''<think>'') s)), s) \<in> measure length"
    by simp
qed

text \<open>
  \<open>strings.TrimSpace\<close> removes leading and trailing Unicode white space. On the bytes
  of a Go string these are the six ASCII characters and the UTF-8 encodings of
  U+0085, U+00A0, U+1680, U+2000 to U+200A, U+2028, U+2029, U+202F, U+205F and U+3000.
\<close>

definition spaceEncodings :: "string list" where
  "spaceEncodings =
     [[CHR 0x09], [CHR 0x0A], [CHR 0x0B], [CHR 0x0C], [CHR 0x0D], [CHR 0x20],
      [CHR 0xC2, CHR 0x85], [CHR 0xC2, CHR 0xA0], [CHR 0xE1, CHR 0x9A, CHR 0x80],
      [CHR 0xE2, CHR 0x80, CHR 0x80], [CHR 0xE2, CHR 0x80, CHR 0x81],
      [CHR 0xE2, CHR 0x80, CHR 0x82], [CHR 0xE2, CHR 0x80, CHR 0x83],
      [CHR 0xE2, CHR 0x80, CHR 0x84], [CHR 0xE2, CHR 0x80, CHR 0x85],
      [CHR 0xE2, CHR 0x80, CHR 0x86], [CHR 0xE2, CHR 0x80, CHR 0x87],
      [CHR 0xE2, CHR 0x80, CHR 0x88], [CHR 0xE2, CHR 0x80, CHR 0x89],
      [CHR 0xE2, CHR 0x80, CHR 0x8A], [CHR 0xE2, CHR 0x80, CHR 0xA8],
      [CHR 0xE2, CHR 0x80, CHR 0xA9], [CHR 0xE2, CHR 0x80, CHR 0xAF],
      [CHR 0xE2, CHR 0x81, CHR 0x9F], [CHR 0xE3, CHR 0x80, CHR 0x80]]"

function trimLeft :: "string list \<Rightarrow> string \<Rightarrow> string" where
  "trimLeft encs s =
     (case find (\<lambda>e. e \<noteq> [] \<and> prefix e s) encs of
        None \<Rightarrow> s
      | Some e \<Rightarrow> trimLeft encs (drop (length e) s))"
  by pat_completeness auto
termination
proof (relation "measure (\<lambda>(encs, s). length s)")
  show "wf (measure (\<lambda>(encs, s). length s))" by simp
next
  fix encs :: "string list" and s e :: string
  assume "find (\<lambda>e. e \<noteq> [] \<and> prefix e s) encs = Some e"
  then have "e \<noteq> []" and "prefix e s"
    by (auto simp: find_Some_iff)
  then have "s \<noteq> []" by auto
  with \<open>e \<noteq> []\<close> show "((encs, drop (length e) s), (encs, s)) \<in> measure (\<lambda>(encs, s). length s)"
    by simp
qed

definition TrimSpace :: "string \<Rightarrow> string" where
  "TrimSpace s = rev (trimLeft (map rev spaceEncodings) (rev (trimLeft spaceEncodings s)))"

definition stripThinkTags :: "string \<Rightarrow> string" where
  "stripThinkTags s = TrimSpace (reThinkTags_remove s)"

section \<open>The tool-calling loops\<close>

text \<open>
  A tool dispatcher (\<open>toolExecFunc\<close>): from the name and the serialized arguments to
  the result text (\<open>Inr\<close>) or the message of the error (\<open>Inl\<close>), in a world that
  the call may change. In \<open>doSubAgentWithTools\<close> a \<open>nil\<close> dispatcher stands for
  \<open>defaultToolExec\<close>; the parameter \<open>exec\<close> below is the dispatcher in effect.
\<close>

type_synonym 'w toolExecFunc = "string \<Rightarrow> string \<Rightarrow> 'w \<Rightarrow> (string + string) \<times> 'w"

text \<open>
  The loops run against the endpoint; what they send and receive is recorded, in
  order, as the exchange log.
\<close>

type_synonym 'd exchange_log = "('d chatRequest \<times> (stream_error + StreamResult)) list"

text \<open>
  The \<open>for _, tc := range result.ToolCalls\<close> loop of \<open>doSubAgentWithTools\<close>.
  Slicing \<open>toolResult[:maxToolResultChars]\<close> is in range under the guard.
\<close>

fun subAgent_execTools ::
  "'w toolExecFunc \<Rightarrow> int \<Rightarrow> ToolCall list \<Rightarrow> Message list \<Rightarrow> 'w \<Rightarrow> Message list \<times> 'w"
where
  "subAgent_execTools exec maxToolResultChars [] messages w = (messages, w)"
| "subAgent_execTools exec maxToolResultChars (tc # tcs) messages w =
     (case exec (Name (Function tc)) (Arguments (Function tc)) w of
        (res, w') \<Rightarrow>
          let toolResult = (case res of Inl execErr \<Rightarrow> ''error: '' @ execErr | Inr r \<Rightarrow> r);
              toolResult =
                (if maxToolResultChars > 0 \<and> int (length toolResult) > maxToolResultChars
                 then take (nat maxToolResultChars) toolResult @ CHR 0x0A # ''[...truncated]''
                 else toolResult)
          in subAgent_execTools exec maxToolResultChars tcs
               (messages @ [\<lparr>Role = ''tool'', Content = toolResult, ToolCalls = [],
                              ToolCallID = ID tc\<rparr>]) w')"

datatype subagent_error =
    RoundError int stream_error
  | FinalRoundError stream_error

text \<open>
  \<open>doSubAgentWithTools\<close>: the \<open>for round := 0; round < maxRounds; round++\<close> loop
  and the forced final request behind it. The result is the exchange log, the returned
  text or error, and the world.
\<close>

function doSubAgentWithTools_loop ::
  "('d, 'w) chatEnv \<Rightarrow> string \<Rightarrow> 'd list \<Rightarrow> int \<Rightarrow> int \<Rightarrow> int \<Rightarrow> int \<Rightarrow> 'w toolExecFunc \<Rightarrow>
   int \<Rightarrow> Message list \<Rightarrow> 'w \<Rightarrow> 'd exchange_log \<times> (subagent_error + string) \<times> 'w"
where
  "doSubAgentWithTools_loop env model toolDefs maxTokens contextLimit maxRounds
       maxToolResultChars exec round messages w =
     (if round < maxRounds then
        (let effectiveMax = capMaxTokens contextLimit maxTokens messages;
             req = \<lparr>Model = model, Messages = messages, Tools = toolDefs, Stream = True,
                    MaxTokens = effectiveMax\<rparr>
         in case doStream env req w of
              (Inl err, w1) \<Rightarrow> ([(req, Inl err)], Inl (RoundError round err), w1)
            | (Inr result, w1) \<Rightarrow>
                if sr_ToolCalls result = [] then
                  ([(req, Inr result)], Inr (stripThinkTags (sr_Content result)), w1)
                else
                  (case subAgent_execTools exec maxToolResultChars (sr_ToolCalls result)
                          (messages @ [\<lparr>Role = ''assistant'', Content = sr_Content result,
                                         ToolCalls = sr_ToolCalls result, ToolCallID = []\<rparr>]) w1 of
                     (messages', w2) \<Rightarrow>
                       (case doSubAgentWithTools_loop env model toolDefs maxTokens contextLimit
                               maxRounds maxToolResultChars exec (round + 1) messages' w2 of
                          (log, r) \<Rightarrow> ((req, Inr result) # log, r))))
      else
        (let effectiveMax = capMaxTokens contextLimit maxTokens messages;
             req = \<lparr>Model = model, Messages = messages, Tools = [], Stream = True,
                    MaxTokens = effectiveMax\<rparr>
         in case doStream env req w of
              (Inl err, w1) \<Rightarrow> ([(req, Inl err)], Inl (FinalRoundError err), w1)
            | (Inr result, w1) \<Rightarrow>
                ([(req, Inr result)], Inr (stripThinkTags (sr_Content result)), w1)))"
  by pat_completeness auto
termination
  by (relation "measure (\<lambda>(env, model, toolDefs, maxTokens, contextLimit, maxRounds,
        maxToolResultChars, exec, round, messages, w). nat (maxRounds - round))") auto

definition doSubAgentWithTools ::
  "('d, 'w) chatEnv \<Rightarrow> string \<Rightarrow> Message list \<Rightarrow> 'd list \<Rightarrow> int \<Rightarrow> int \<Rightarrow> int \<Rightarrow> int \<Rightarrow>
   'w toolExecFunc \<Rightarrow> 'w \<Rightarrow> 'd exchange_log \<times> (subagent_error + string) \<times> 'w"
where
  "doSubAgentWithTools env model messages toolDefs maxTokens contextLimit maxRounds
       maxToolResultChars execTool w =
     doSubAgentWithTools_loop env model toolDefs maxTokens contextLimit maxRounds
       maxToolResultChars execTool 0 messages w"

text \<open>
  \<open>runQuery\<close>. The configuration of the model, the tool loop of one round (without
  a size cap), one pass of the \<open>for\<close> body, and the loop. The body either returns
  (\<open>Inl\<close>) or goes round again with the grown conversation (\<open>Inr\<close>). The loop has
  no exit of its own, so it is a partial function: \<open>None\<close> is a run that never
  returns. \<open>toolDefs\<close> and \<open>execTool\<close> are the merged definitions and the dispatcher
  that \<open>runQuery\<close> builds first.
\<close>

record limitConfig =
  Context :: int
  Output :: int

record modelConfig =
  mc_Name :: string
  BaseURL :: string
  Limit :: limitConfig

fun runQuery_execTools ::
  "'w toolExecFunc \<Rightarrow> ToolCall list \<Rightarrow> Message list \<Rightarrow> 'w \<Rightarrow> Message list \<times> 'w"
where
  "runQuery_execTools execTool [] messages w = (messages, w)"
| "runQuery_execTools execTool (tc # tcs) messages w =
     (case execTool (Name (Function tc)) (Arguments (Function tc)) w of
        (res, w') \<Rightarrow>
          let toolResult = (case res of Inl execErr \<Rightarrow> ''error: '' @ execErr | Inr r \<Rightarrow> r)
          in runQuery_execTools execTool tcs
               (messages @ [\<lparr>Role = ''tool'', Content = toolResult, ToolCalls = [],
                              ToolCallID = ID tc\<rparr>]) w')"

definition runQuery_body ::
  "('d, 'w) chatEnv \<Rightarrow> modelConfig \<Rightarrow> string \<Rightarrow> 'd list \<Rightarrow> 'w toolExecFunc \<Rightarrow> Message list \<Rightarrow> 'w \<Rightarrow>
   ('d chatRequest \<times> (stream_error + StreamResult)) \<times>
   ((stream_error + string) + Message list) \<times> 'w"
where
  "runQuery_body env cfg modelID toolDefs execTool messages w =
     (let req = \<lparr>Model = modelID, Messages = messages, Tools = toolDefs, Stream = True,
                 MaxTokens = Output (Limit cfg)\<rparr>
      in case doStream env req w of
           (Inl err, w1) \<Rightarrow> ((req, Inl err), Inl (Inl err), w1)
         | (Inr result, w1) \<Rightarrow>
             if sr_ToolCalls result = [] then
               ((req, Inr result), Inl (Inr (sr_Content result)), w1)
             else
               (case runQuery_execTools execTool (sr_ToolCalls result)
                       (messages @ [\<lparr>Role = ''assistant'', Content = sr_Content result,
                                      ToolCalls = sr_ToolCalls result, ToolCallID = []\<rparr>]) w1 of
                  (messages', w2) \<Rightarrow> ((req, Inr result), Inr messages', w2)))"

partial_function (option) runQuery_loop ::
  "('d, 'w) chatEnv \<Rightarrow> modelConfig \<Rightarrow> string \<Rightarrow> 'd list \<Rightarrow> 'w toolExecFunc \<Rightarrow> Message list \<Rightarrow> 'w \<Rightarrow>
   ('d exchange_log \<times> (stream_error + string) \<times> 'w) option"
where
  "runQuery_loop env cfg modelID toolDefs execTool messages w =
     (case runQuery_body env cfg modelID toolDefs execTool messages w of
        (x, Inl r, w') \<Rightarrow> Some ([x], r, w')
      | (x, Inr messages', w') \<Rightarrow>
          Option.bind (runQuery_loop env cfg modelID toolDefs execTool messages' w')
            (\<lambda>(log, r). Some (x # log, r)))"

definition runQuery ::
  "('d, 'w) chatEnv \<Rightarrow> modelConfig \<Rightarrow> string \<Rightarrow> string \<Rightarrow> string \<Rightarrow> 'd list \<Rightarrow> 'w toolExecFunc \<Rightarrow> 'w \<Rightarrow>
   ('d exchange_log \<times> (stream_error + string) \<times> 'w) option"
where
  "runQuery env cfg modelID query systemPrompt toolDefs execTool w =
     runQuery_loop env cfg modelID toolDefs execTool
       [\<lparr>Role = ''system'', Content = systemPrompt, ToolCalls = [], ToolCallID = []\<rparr>,
        \<lparr>Role = ''user'', Content = query, ToolCalls = [], ToolCallID = []\<rparr>] w"

text \<open>
  The first \<open>n\<close> passes of the \<open>runQuery\<close> loop from a conversation: the exchanges
  made, and the returned value when the loop returned within them. It describes every
  run, also one that never returns.
\<close>

fun runQuery_passes ::
  "nat \<Rightarrow> ('d, 'w) chatEnv \<Rightarrow> modelConfig \<Rightarrow> string \<Rightarrow> 'd list \<Rightarrow> 'w toolExecFunc \<Rightarrow> Message list \<Rightarrow> 'w \<Rightarrow>
   'd exchange_log \<times> ((stream_error + string) \<times> 'w) option"
where
  "runQuery_passes 0 env cfg modelID toolDefs execTool messages w = ([], None)"
| "runQuery_passes (Suc n) env cfg modelID toolDefs execTool messages w =
     (case runQuery_body env cfg modelID toolDefs execTool messages w of
        (x, Inl r, w') \<Rightarrow> ([x], Some (r, w'))
      | (x, Inr messages', w') \<Rightarrow>
          (case runQuery_passes n env cfg modelID toolDefs execTool messages' w' of
             (log, r) \<Rightarrow> (x # log, r)))"

text \<open>
  The outcomes of dispatching the calls of one round, in order, each in the world the
  call before it left.
\<close>

fun toolOutcomes :: "'w toolExecFunc \<Rightarrow> ToolCall list \<Rightarrow> 'w \<Rightarrow> (string + string) list" where
  "toolOutcomes exec [] w = []"
| "toolOutcomes exec (tc # tcs) w =
     (case exec (Name (Function tc)) (Arguments (Function tc)) w of
        (res, w') \<Rightarrow> res # toolOutcomes exec tcs w')"

text \<open>
  The pairing of tool calls and tool messages in a conversation: a message with tool
  calls is followed at once by one message of role \<open>tool\<close> for each call, in the
  order of the calls and with the id of its call, and no message of role \<open>tool\<close>
  stands anywhere else.
\<close>

function well_paired :: "Message list \<Rightarrow> bool" where
  "well_paired [] = True"
| "well_paired (m # ms) =
     (if ToolCalls m \<noteq> [] then
        length (ToolCalls m) \<le> length ms \<and>
        map (\<lambda>t. (Role t, ToolCallID t)) (take (length (ToolCalls m)) ms) =
          map (\<lambda>tc. (''tool'', ID tc)) (ToolCalls m) \<and>
        well_paired (drop (length (ToolCalls m)) ms)
      else Role m \<noteq> ''tool'' \<and> well_paired ms)"
  by pat_completeness auto
termination
  by (relation "measure length") auto

section \<open>The MCP client\<close>

record jsonRPCError =
  Code :: int
  je_Message :: string

text \<open>
  \<open>ID\<close> is \<open>*int\<close> in both structures: \<open>None\<close> is \<open>nil\<close>, an id that is absent
  or \<open>null\<close>. \<open>Params\<close> (\<open>any\<close>) and \<open>Result\<close> (\<open>json.RawMessage\<close>) are
  carried as serialized text.
\<close>

record jsonRPCRequest =
  rq_JSONRPC :: string
  rq_ID :: "int option"
  Method :: string
  Params :: "string option"

record jsonRPCResponse =
  JSONRPC :: string
  rs_ID :: "int option"
  Result :: string
  Error :: "jsonRPCError option"

text \<open>
  \<open>Headers\<close> is a Go map; the list holds its entries in the order in which the
  \<open>range\<close> loop of the request at hand visits them.
\<close>

record MCPServerConfig =
  URL :: string
  Enabled :: bool
  Headers :: "(string \<times> string) list"

record mcpTool =
  mt_Name :: string
  Description :: string
  InputSchema :: string

record MCPServer =
  srv_name :: string
  srv_cfg :: MCPServerConfig
  inited :: bool
  sessionID :: string
  srv_tools :: "mcpTool list"

record httpRequest =
  hr_Method :: string
  hr_URL :: string
  hr_Header :: "(string \<times> string) list"
  hr_Body :: string

text \<open>
  The environment of the client: \<open>json.Marshal\<close> of a request (\<open>Inl\<close> its error),
  the error of \<open>http.NewRequest\<close> for a URL if it has one,
  \<open>http.DefaultClient.Do\<close> (\<open>Inl\<close> the message of its error),
  \<open>textproto.CanonicalMIMEHeaderKey\<close>, \<open>json.Unmarshal\<close> into a
  \<open>jsonRPCResponse\<close> (\<open>None\<close> when it returns an error) and
  \<open>json.NewDecoder(body).Decode\<close> into one (\<open>Inl\<close> the message of its error).
\<close>

record 'w mcpEnv =
  marshalRequest :: "jsonRPCRequest \<Rightarrow> string + string"
  newRequestError :: "string \<Rightarrow> string option"
  roundTrip :: "httpRequest \<Rightarrow> 'w \<Rightarrow> (string + httpResponse) \<times> 'w"
  canonicalKey :: "string \<Rightarrow> string"
  unmarshalResponse :: "string \<Rightarrow> jsonRPCResponse option"
  decodeResponse :: "string \<Rightarrow> string + jsonRPCResponse"

text \<open>
  \<open>http.Header\<close>: \<open>Set\<close> stores one value under the canonical form of the key,
  \<open>Get\<close> reads the value under the canonical form of the key, \<open>""\<close> when there
  is none.
\<close>

definition header_Set ::
  "(string \<Rightarrow> string) \<Rightarrow> (string \<times> string) list \<Rightarrow> string \<Rightarrow> string \<Rightarrow> (string \<times> string) list"
where
  "header_Set canon h k v = AList.update (canon k) v h"

definition header_Get :: "(string \<Rightarrow> string) \<Rightarrow> (string \<times> string) list \<Rightarrow> string \<Rightarrow> string" where
  "header_Get canon h k = (case map_of h (canon k) of Some v \<Rightarrow> v | None \<Rightarrow> [])"

datatype rpc_error =
    RpcMarshal string
  | RpcNewRequest string
  | RpcDo string
  | RpcHTTP int string
  | RpcDecode string
  | RpcSSERead string
  | RpcNoResponse

text \<open>
  \<open>parseSSE\<close>: the \<open>for scanner.Scan()\<close> loop, which returns from inside at the
  first response with an id, and the two errors behind the loop.
\<close>

fun parseSSE_scan ::
  "(string \<Rightarrow> jsonRPCResponse option) \<Rightarrow> string list \<Rightarrow> jsonRPCResponse option"
where
  "parseSSE_scan unm [] = None"
| "parseSSE_scan unm (line # rest) =
     (if \<not> prefix ''data: '' line then parseSSE_scan unm rest
      else
        let data = drop (length ''data: '') line in
        (case unm data of
           None \<Rightarrow> parseSSE_scan unm rest
         | Some rpcResp \<Rightarrow>
             if rs_ID rpcResp \<noteq> None then Some rpcResp else parseSSE_scan unm rest))"

definition parseSSE ::
  "(string \<Rightarrow> jsonRPCResponse option) \<Rightarrow> httpResponse \<Rightarrow> rpc_error + jsonRPCResponse"
where
  "parseSSE unm body =
     (case parseSSE_scan unm (scanLines body) of
        Some rpcResp \<Rightarrow> Inr rpcResp
      | None \<Rightarrow>
          (case scanErr body of
             Some e \<Rightarrow> Inl (RpcSSERead e)
           | None \<Rightarrow> Inl RpcNoResponse))"

text \<open>
  The request that \<open>rpcCall\<close> and \<open>rpcNotify\<close> build, in the same way, from the
  payload: the two fixed headers, the configured ones, and the session header when a
  session id is stored.
\<close>

definition newPOST :: "'w mcpEnv \<Rightarrow> MCPServer \<Rightarrow> string \<Rightarrow> httpRequest" where
  "newPOST env s payload =
     (let h = header_Set (canonicalKey env) [] ''Content-Type'' ''application/json'';
          h = header_Set (canonicalKey env) h ''Accept'' ''application/json, text/event-stream'';
          h = foldl (\<lambda>h (k, v). header_Set (canonicalKey env) h k v) h (Headers (srv_cfg s));
          h = (if sessionID s \<noteq> []
               then header_Set (canonicalKey env) h ''Mcp-Session-Id'' (sessionID s) else h)
      in \<lparr>hr_Method = ''POST'', hr_URL = URL (srv_cfg s), hr_Header = h, hr_Body = payload\<rparr>)"

text \<open>
  The exchanges of a connection, in order: each request handed to
  \<open>http.DefaultClient.Do\<close> with what came back, and whether \<open>rpcCall\<close> or
  \<open>rpcNotify\<close> made it.
\<close>

datatype exchange_kind = ByCall | ByNotify

type_synonym mcp_log = "(exchange_kind \<times> httpRequest \<times> (string + httpResponse)) list"

definition rpcCall ::
  "'w mcpEnv \<Rightarrow> MCPServer \<Rightarrow> jsonRPCRequest \<Rightarrow> 'w \<Rightarrow>
   MCPServer \<times> (rpc_error + jsonRPCResponse) \<times> mcp_log \<times> 'w"
where
  "rpcCall env s req w =
     (case marshalRequest env req of
        Inl e \<Rightarrow> (s, Inl (RpcMarshal e), [], w)
      | Inr payload \<Rightarrow>
          (case newRequestError env (URL (srv_cfg s)) of
             Some e \<Rightarrow> (s, Inl (RpcNewRequest e), [], w)
           | None \<Rightarrow>
               let httpReq = newPOST env s payload in
               (case roundTrip env httpReq w of
                  (Inl e, w') \<Rightarrow> (s, Inl (RpcDo e), [(ByCall, httpReq, Inl e)], w')
                | (Inr resp, w') \<Rightarrow>
                    if StatusCode resp \<noteq> 200 then
                      (s, Inl (RpcHTTP (StatusCode resp) (Body resp)),
                       [(ByCall, httpReq, Inr resp)], w')
                    else
                      let sid = header_Get (canonicalKey env) (Header resp) ''Mcp-Session-Id'';
                          s' = (if sid \<noteq> [] then s\<lparr>sessionID := sid\<rparr> else s);
                          ct = header_Get (canonicalKey env) (Header resp) ''Content-Type''
                      in if prefix ''text/event-stream'' ct then
                           (s', parseSSE (unmarshalResponse env) resp,
                            [(ByCall, httpReq, Inr resp)], w')
                         else
                           (case decodeResponse env (Body resp) of
                              Inl e \<Rightarrow> (s', Inl (RpcDecode e), [(ByCall, httpReq, Inr resp)], w')
                            | Inr rpcResp \<Rightarrow>
                                (s', Inr rpcResp, [(ByCall, httpReq, Inr resp)], w')))))"

definition rpcNotify ::
  "'w mcpEnv \<Rightarrow> MCPServer \<Rightarrow> jsonRPCRequest \<Rightarrow> 'w \<Rightarrow>
   MCPServer \<times> rpc_error option \<times> mcp_log \<times> 'w"
where
  "rpcNotify env s req w =
     (case marshalRequest env req of
        Inl e \<Rightarrow> (s, Some (RpcMarshal e), [], w)
      | Inr payload \<Rightarrow>
          (case newRequestError env (URL (srv_cfg s)) of
             Some e \<Rightarrow> (s, Some (RpcNewRequest e), [], w)
           | None \<Rightarrow>
               let httpReq = newPOST env s payload in
               (case roundTrip env httpReq w of
                  (Inl e, w') \<Rightarrow> (s, Some (RpcDo e), [(ByNotify, httpReq, Inl e)], w')
                | (Inr resp, w') \<Rightarrow> (s, None, [(ByNotify, httpReq, Inr resp)], w'))))"

text \<open>
  A sequence of exchanges of one connection: calls and notifications in any order,
  each from the server state the one before it left.
\<close>

datatype mcp_op = CallOp jsonRPCRequest | NotifyOp jsonRPCRequest

fun mcp_run ::
  "'w mcpEnv \<Rightarrow> MCPServer \<Rightarrow> mcp_op list \<Rightarrow> 'w \<Rightarrow> MCPServer \<times> mcp_log \<times> 'w"
where
  "mcp_run env s [] w = (s, [], w)"
| "mcp_run env s (CallOp req # ops) w =
     (case rpcCall env s req w of
        (s', r, log, w') \<Rightarrow>
          (case mcp_run env s' ops w' of (s'', log', w'') \<Rightarrow> (s'', log @ log', w'')))"
| "mcp_run env s (NotifyOp req # ops) w =
     (case rpcNotify env s req w of
        (s', r, log, w') \<Rightarrow>
          (case mcp_run env s' ops w' of (s'', log', w'') \<Rightarrow> (s'', log @ log', w'')))"

text \<open>
  The session token in force after an exchange, from the one in force before it: a
  non-empty \<open>Mcp-Session-Id\<close> of a response with status 200 to an \<open>rpcCall\<close>
  replaces it, and nothing else does.
\<close>

definition token_step ::
  "(string \<Rightarrow> string) \<Rightarrow> string \<Rightarrow> exchange_kind \<times> httpRequest \<times> (string + httpResponse) \<Rightarrow> string"
where
  "token_step canon tok e =
     (case e of
        (ByCall, httpReq, Inr resp) \<Rightarrow>
          if StatusCode resp = 200 \<and> header_Get canon (Header resp) ''Mcp-Session-Id'' \<noteq> []
          then header_Get canon (Header resp) ''Mcp-Session-Id'' else tok
      | _ \<Rightarrow> tok)"

text \<open>
  \<open>carries_token canon tok log\<close>: every request of the log carries, as its
  \<open>Mcp-Session-Id\<close>, the token in force when it was sent, whenever there is one;
  \<open>tok\<close> is the token in force at the start.
\<close>

fun carries_token :: "(string \<Rightarrow> string) \<Rightarrow> string \<Rightarrow> mcp_log \<Rightarrow> bool" where
  "carries_token canon tok [] = True"
| "carries_token canon tok (e # es) =
     ((tok \<noteq> [] \<longrightarrow> header_Get canon (hr_Header (fst (snd e))) ''Mcp-Session-Id'' = tok) \<and>
      carries_token canon (token_step canon tok e) es)"

text \<open>
  The frames of an event stream as the specification words them: the payloads of the
  lines with the prefix \<open>data: \<close> that parse as a JSON-RPC response, and among them
  the first that carries an id.
\<close>

definition data_frames :: "(string \<Rightarrow> jsonRPCResponse option) \<Rightarrow> string list \<Rightarrow> jsonRPCResponse list" where
  "data_frames unm lines =
     List.map_filter (\<lambda>line. unm (drop (length ''data: '') line))
       (filter (prefix ''data: '') lines)"

definition first_response_frame ::
  "(string \<Rightarrow> jsonRPCResponse option) \<Rightarrow> string list \<Rightarrow> jsonRPCResponse option"
where
  "first_response_frame unm lines = find (\<lambda>r. rs_ID r \<noteq> None) (data_frames unm lines)"

text \<open>
  What one fragment does to the entry of its own slot, read off \<open>tcMap_step\<close> on a
  map that holds at most that entry.
\<close>

definition slot_step :: "ToolCall option \<Rightarrow> streamToolCall \<Rightarrow> ToolCall option" where
  "slot_step e tc =
     map_of (tcMap_step (case e of None \<Rightarrow> [] | Some c \<Rightarrow> [(Index tc, c)]) tc) (Index tc)"


text \<open>The stream that delivers every call whole, each in a chunk of its own.\<close>

definition atomic_stream :: "ToolCall list \<Rightarrow> streamChunk list" where
  "atomic_stream calls =
     map (\<lambda>i. chunk_of [atomic_fragment (int i) (calls ! i)]) [0..<length calls]"

text \<open>Two calls, and a stream that delivers them out of slot order and in pieces.\<close>

definition call_a :: ToolCall where
  "call_a = \<lparr>ID = ''a'', Type = ''function'',
             Function = \<lparr>Name = ''get_weather'', Arguments = ''{city:Oslo}''\<rparr>\<rparr>"

definition call_b :: ToolCall where
  "call_b = \<lparr>ID = ''b'', Type = ''function'',
             Function = \<lparr>Name = ''get_time'', Arguments = ''{tz:UTC}''\<rparr>\<rparr>"

definition fragmented_stream :: "streamChunk list" where
  "fragmented_stream =
     [chunk_of [\<lparr>Index = 1, stc_ID = ''b'', stc_Type = ''function'',
                 stc_Function = \<lparr>sfc_Name = ''get_time'', sfc_Arguments = ''{tz''\<rparr>\<rparr>],
      chunk_of [\<lparr>Index = 0, stc_ID = ''a'', stc_Type = ''function'',
                 stc_Function = \<lparr>sfc_Name = ''get_weather'', sfc_Arguments = []\<rparr>\<rparr>,
                \<lparr>Index = 1, stc_ID = [], stc_Type = [],
                 stc_Function = \<lparr>sfc_Name = [], sfc_Arguments = '':U''\<rparr>\<rparr>],
      chunk_of [\<lparr>Index = 0, stc_ID = [], stc_Type = [],
                 stc_Function = \<lparr>sfc_Name = [], sfc_Arguments = ''{city:''\<rparr>\<rparr>],
      chunk_of [\<lparr>Index = 1, stc_ID = [], stc_Type = [],
                 stc_Function = \<lparr>sfc_Name = [], sfc_Arguments = ''TC}''\<rparr>\<rparr>,
                \<lparr>Index = 0, stc_ID = [], stc_Type = [],
                 stc_Function = \<lparr>sfc_Name = [], sfc_Arguments = ''Oslo}''\<rparr>\<rparr>]]"

text \<open>A stream that cuts the name of a call into two pieces.\<close>

definition split_name_stream :: "streamChunk list" where
  "split_name_stream =
     [chunk_of [\<lparr>Index = 0, stc_ID = ''a'', stc_Type = ''function'',
                 stc_Function = \<lparr>sfc_Name = ''get_'', sfc_Arguments = []\<rparr>\<rparr>],
      chunk_of [\<lparr>Index = 0, stc_ID = [], stc_Type = [],
                 stc_Function = \<lparr>sfc_Name = ''weather'', sfc_Arguments = ''{city:Oslo}''\<rparr>\<rparr>]]"

text \<open>
  An event stream for trying \<open>parseSSE\<close>: an event line, a frame that does not
  parse, a notification (no id), a blank line and the response with id 1, with an
  unmarshaller that knows these payloads.
\<close>

definition sse_notification :: jsonRPCResponse where
  "sse_notification = \<lparr>JSONRPC = ''2.0'', rs_ID = None, Result = [], Error = None\<rparr>"

definition sse_response :: jsonRPCResponse where
  "sse_response = \<lparr>JSONRPC = ''2.0'', rs_ID = Some 1, Result = ''{tools:[]}'', Error = None\<rparr>"

definition sse_unmarshal :: "string \<Rightarrow> jsonRPCResponse option" where
  "sse_unmarshal data =
     (if data = ''{jsonrpc:2.0,method:notifications/message}'' then Some sse_notification
      else if data = ''{jsonrpc:2.0,id:1,result:{tools:[]}}'' then Some sse_response
      else None)"

definition sse_body :: httpResponse where
  "sse_body =
     \<lparr>StatusCode = 200, Header = [(''Content-Type'', ''text/event-stream'')], Body = [],
      scanLines = [''event: message'', ''data: {broken'',
                   ''data: {jsonrpc:2.0,method:notifications/message}'', [],
                   ''data: {jsonrpc:2.0,id:1,result:{tools:[]}}''],
      scanErr = None\<rparr>"

text \<open>
  A server for trying the session handling. The world counts the exchanges: the
  response to the first one carries the session token \<open>A\<close>, the response to the
  second the token \<open>B\<close>, later responses carry none.
\<close>

definition session_response :: "nat \<Rightarrow> httpResponse" where
  "session_response k =
     \<lparr>StatusCode = 200,
      Header = (if k = 0 then [(''Mcp-Session-Id'', ''A'')]
                else if k = 1 then [(''Mcp-Session-Id'', ''B'')] else []),
      Body = ''{}'', scanLines = [''{}''], scanErr = None\<rparr>"

definition session_env :: "nat mcpEnv" where
  "session_env =
     \<lparr>marshalRequest = (\<lambda>req. Inr (Method req)),
      newRequestError = (\<lambda>url. None),
      roundTrip = (\<lambda>httpReq k. (Inr (session_response k), Suc k)),
      canonicalKey = (\<lambda>k. k),
      unmarshalResponse = sse_unmarshal,
      decodeResponse = (\<lambda>body. Inr sse_response)\<rparr>"

definition session_server :: MCPServer where
  "session_server =
     \<lparr>srv_name = ''files'',
      srv_cfg = \<lparr>URL = ''http://localhost:3000/mcp'', Enabled = True,
                 Headers = [(''Authorization'', ''Bearer t'')]\<rparr>,
      inited = False, sessionID = [], srv_tools = []\<rparr>"

definition rpc_request :: "string \<Rightarrow> jsonRPCRequest" where
  "rpc_request m = \<lparr>rq_JSONRPC = ''2.0'', rq_ID = Some 1, Method = m, Params = None\<rparr>"

definition rpc_notification :: "string \<Rightarrow> jsonRPCRequest" where
  "rpc_notification m = \<lparr>rq_JSONRPC = ''2.0'', rq_ID = None, Method = m, Params = None\<rparr>"

text \<open>
  What a log shows of the session header: for each exchange the token the request
  carried and the token the response carried (\<open>""\<close> for none).
\<close>

definition tokens_sent :: "(string \<Rightarrow> string) \<Rightarrow> mcp_log \<Rightarrow> string list" where
  "tokens_sent canon log =
     map (\<lambda>e. header_Get canon (hr_Header (fst (snd e))) ''Mcp-Session-Id'') log"

definition tokens_received :: "(string \<Rightarrow> string) \<Rightarrow> mcp_log \<Rightarrow> string list" where
  "tokens_received canon log =
     map (\<lambda>e. case snd (snd e) of
                 Inr resp \<Rightarrow> header_Get canon (Header resp) ''Mcp-Session-Id''
               | Inl err \<Rightarrow> []) log"

text \<open>
  The frames as the specification words them, for comparison with \<open>parseSSE\<close>: the
  payload of every line of the field \<open>data\<close>, which is what follows \<open>data:\<close>
  less one leading space when there is one, and the first of the payloads that parse
  which carries an id.
\<close>

definition data_payload :: "string \<Rightarrow> string option" where
  "data_payload line =
     (if prefix ''data:'' line then
        (let p = drop (length ''data:'') line in
         Some (if prefix '' '' p then drop 1 p else p))
      else None)"

definition spec_response_frame ::
  "(string \<Rightarrow> jsonRPCResponse option) \<Rightarrow> string list \<Rightarrow> jsonRPCResponse option"
where
  "spec_response_frame unm lines =
     find (\<lambda>r. rs_ID r \<noteq> None)
       (List.map_filter (\<lambda>line. case data_payload line of None \<Rightarrow> None | Some p \<Rightarrow> unm p)
          lines)"

text \<open>
  An event stream whose first response frame has no space behind the colon, with an
  unmarshaller that knows its payload besides those of \<open>sse_unmarshal\<close>.
\<close>

definition sse_response_3 :: jsonRPCResponse where
  "sse_response_3 = \<lparr>JSONRPC = ''2.0'', rs_ID = Some 3, Result = ''{}'', Error = None\<rparr>"

definition sse_unmarshal_3 :: "string \<Rightarrow> jsonRPCResponse option" where
  "sse_unmarshal_3 data =
     (if data = ''{jsonrpc:2.0,id:3,result:{}}'' then Some sse_response_3
      else sse_unmarshal data)"

definition sse_body_nospace :: httpResponse where
  "sse_body_nospace =
     \<lparr>StatusCode = 200, Header = [(''Content-Type'', ''text/event-stream'')], Body = [],
      scanLines = [''data:{jsonrpc:2.0,id:3,result:{}}'',
                   ''data: {jsonrpc:2.0,id:1,result:{tools:[]}}''],
      scanErr = None\<rparr>"

section \<open>Views of the tool-calling loops\<close>

text \<open>
  The text that the outcome of a tool call becomes (\<open>toolResult\<close> as first assigned),
  and the cut that \<open>doSubAgentWithTools\<close> applies to it before it is appended.
\<close>

definition toolText :: "string + string \<Rightarrow> string" where
  "toolText res = (case res of Inl execErr \<Rightarrow> ''error: '' @ execErr | Inr r \<Rightarrow> r)"

definition capText :: "int \<Rightarrow> string \<Rightarrow> string" where
  "capText maxToolResultChars toolResult =
     (if maxToolResultChars > 0 \<and> int (length toolResult) > maxToolResultChars
      then take (nat maxToolResultChars) toolResult @ CHR 0x0A # ''[...truncated]''
      else toolResult)"

definition toolMessage :: "ToolCall \<Rightarrow> string \<Rightarrow> Message" where
  "toolMessage tc toolResult =
     \<lparr>Role = ''tool'', Content = toolResult, ToolCalls = [], ToolCallID = ID tc\<rparr>"

definition assistantMessage :: "StreamResult \<Rightarrow> Message" where
  "assistantMessage result =
     \<lparr>Role = ''assistant'', Content = sr_Content result, ToolCalls = sr_ToolCalls result,
      ToolCallID = []\<rparr>"

text \<open>
  What a log shows: the tool definitions and the \<open>max_tokens\<close> value of each request,
  the conversations sent, and whether the last exchange failed.
\<close>

definition tools_offered :: "'d exchange_log \<Rightarrow> 'd list list" where
  "tools_offered log = map (\<lambda>x. Tools (fst x)) log"

definition max_tokens_sent :: "'d exchange_log \<Rightarrow> int list" where
  "max_tokens_sent log = map (\<lambda>x. MaxTokens (fst x)) log"

definition max_tokens_capped :: "int \<Rightarrow> int \<Rightarrow> 'd exchange_log \<Rightarrow> int list" where
  "max_tokens_capped contextLimit maxTokens log =
     map (\<lambda>x. capMaxTokens contextLimit maxTokens (Messages (fst x))) log"

definition conversations :: "'d exchange_log \<Rightarrow> Message list list" where
  "conversations log = map (\<lambda>x. Messages (fst x)) log"

definition roles_and_ids :: "Message list \<Rightarrow> (string \<times> string) list" where
  "roles_and_ids ms = map (\<lambda>m. (Role m, ToolCallID m)) ms"


text \<open>
  \<open>round_appended before result after\<close>: the conversation \<open>after\<close> is \<open>before\<close>,
  then the assistant message of \<open>result\<close>, then one message of role \<open>tool\<close> for each
  call of \<open>result\<close>, in the order of the calls and with the id of its call, and nothing
  else. \<open>paired_rounds\<close> says this of every two successive requests of a log, the
  first of which was answered with tool calls.
\<close>

definition round_appended :: "Message list \<Rightarrow> StreamResult \<Rightarrow> Message list \<Rightarrow> bool" where
  "round_appended before result after =
     (take (length before + 1) after = before @ [assistantMessage result] \<and>
      map (\<lambda>t. (Role t, ToolCalls t, ToolCallID t)) (drop (length before + 1) after) =
        map (\<lambda>tc. (''tool'', [], ID tc)) (sr_ToolCalls result))"

fun paired_rounds :: "'d exchange_log \<Rightarrow> bool" where
  "paired_rounds (x # y # rest) =
     ((case snd x of
         Inl err \<Rightarrow> False
       | Inr result \<Rightarrow>
           sr_ToolCalls result \<noteq> [] \<and>
           round_appended (Messages (fst x)) result (Messages (fst y))) \<and>
      paired_rounds (y # rest))"
| "paired_rounds [x] = True"
| "paired_rounds [] = True"

text \<open>
  Endpoints and a dispatcher for trying the loops. The world counts the requests made.
  \<open>calling_env\<close> answers every request with some text and a call of
  \<open>get_weather\<close>; \<open>two_call_env\<close> answers the first request with the calls
  \<open>a\<close> and \<open>b\<close> and every later one with text only. The dispatcher knows
  \<open>get_weather\<close> and fails on every other name.
\<close>

definition calling_chunk :: streamChunk where
  "calling_chunk =
     \<lparr>Choices = [\<lparr>Delta = \<lparr>sd_Role = ''assistant'',
                           sd_Content = Some ''<think>plan</think> working'',
                           ReasoningContent = None,
                           sd_ToolCalls = [atomic_fragment 0 call_a]\<rparr>,
                  FinishReason = None\<rparr>]\<rparr>"

definition text_chunk :: streamChunk where
  "text_chunk =
     \<lparr>Choices = [\<lparr>Delta = \<lparr>sd_Role = ''assistant'', sd_Content = Some ''It is sunny.'',
                           ReasoningContent = None, sd_ToolCalls = []\<rparr>,
                  FinishReason = Some ''stop''\<rparr>]\<rparr>"

definition stub_unmarshal :: "string \<Rightarrow> streamChunk option" where
  "stub_unmarshal data =
     (if data = ''calling'' then Some calling_chunk
      else if data = ''two'' then
        Some (chunk_of [atomic_fragment 0 call_a, atomic_fragment 1 call_b])
      else if data = ''text'' then Some text_chunk
      else None)"

definition stream_response :: "string list \<Rightarrow> httpResponse" where
  "stream_response ls =
     \<lparr>StatusCode = 200, Header = [], Body = [], scanLines = ls, scanErr = None\<rparr>"

definition calling_env :: "(string, nat) chatEnv" where
  "calling_env =
     \<lparr>post = (\<lambda>req k. (Responds (stream_response [''data: calling'', ''data: [DONE]'']), Suc k)),
      unmarshalChunk = stub_unmarshal\<rparr>"

definition two_call_env :: "(string, nat) chatEnv" where
  "two_call_env =
     \<lparr>post = (\<lambda>req k.
        (Responds (stream_response
           (if k = 0 then [''data: two'', ''data: [DONE]'']
            else [''data: text'', ''data: [DONE]''])), Suc k)),
      unmarshalChunk = stub_unmarshal\<rparr>"

definition stub_exec :: "nat toolExecFunc" where
  "stub_exec name args k =
     (if name = ''get_weather'' then (Inr ''sunny, 21 degrees'', k)
      else (Inl ''unknown tool'', k))"

definition stub_cfg :: modelConfig where
  "stub_cfg =
     \<lparr>mc_Name = ''local'', BaseURL = ''http://localhost:8080/v1'',
      Limit = \<lparr>Context = 4096, Output = 4096\<rparr>\<rparr>"

definition stub_conversation :: "Message list" where
  "stub_conversation =
     [\<lparr>Role = ''system'', Content = ''You are helpful.'', ToolCalls = [], ToolCallID = []\<rparr>,
      \<lparr>Role = ''user'', Content = ''Weather in Oslo?'', ToolCalls = [], ToolCallID = []\<rparr>]"

section \<open>Properties of the byte-string primitives and of partialSuffix\<close>

declare process_loop.simps [simp del]

lemma partialSuffix_loop_le: "partialSuffix_loop s tag n \<le> n"
  by (induction n) auto

lemma partialSuffix_loop_suffix:
  "suffix (take (partialSuffix_loop s tag n) tag) s"
  by (induction n) auto

lemma partialSuffix_le: "partialSuffix s tag \<le> length tag - 1"
  unfolding partialSuffix_def
  using partialSuffix_loop_le[of s tag "min (length tag - 1) (length s)"] by simp

lemma partialSuffix_le_len: "partialSuffix s tag \<le> length s"
  unfolding partialSuffix_def
  using partialSuffix_loop_le[of s tag "min (length tag - 1) (length s)"] by simp

lemma partialSuffix_drop:
  "drop (length s - partialSuffix s tag) s = take (partialSuffix s tag) tag"
proof -
  have "suffix (take (partialSuffix s tag) tag) s"
    unfolding partialSuffix_def by (rule partialSuffix_loop_suffix)
  then obtain u where u: "s = u @ take (partialSuffix s tag) tag"
    by (auto simp: suffix_def)
  have "length (take (partialSuffix s tag) tag) = partialSuffix s tag"
    using partialSuffix_le[of s tag] by simp
  then show ?thesis using u
    by (metis append_eq_conv_conj length_append add_diff_cancel_right')
qed

lemma strict_prefix_take_partialSuffix:
  assumes "tag \<noteq> []"
  shows "strict_prefix (take (partialSuffix s tag) tag) tag"
proof -
  have "partialSuffix s tag < length tag"
    using assms partialSuffix_le[of s tag] by (cases tag) auto
  then have "take (partialSuffix s tag) tag \<noteq> tag"
    by (metis length_take min.absorb4 nat_neq_iff)
  then show ?thesis
    by (simp add: strict_prefix_def take_is_prefix)
qed

section \<open>thinkFilter: the pending buffer\<close>

lemma process_loop_pending: "pending_ok (fst (process_loop f))"
proof (induction f rule: process_loop.induct)
  case (1 f)
  show ?case
    apply (subst process_loop.simps)
    using "1.IH"
    apply (auto split: option.splits simp: Let_def partialSuffix_drop pending_ok_def
         strict_prefix_take_partialSuffix)
    done
qed

lemma strict_prefix_length: "strict_prefix xs ys \<Longrightarrow> length xs < length ys"
  by (metis prefix_length_less)

text \<open>
  C10. After every call of \<open>process\<close>, from any filter state and for any chunk, the
  pending buffer is a proper prefix of the marker the filter is waiting for
  (\<open><think>\<close> outside a thinking block, \<open></think>\<close> inside one), so it is a
  proper prefix of one of the two markers and holds at most 7 bytes.
\<close>

theorem process_pending_bounded:
  "length (pending (fst (process f chunk))) \<le> 7 \<and>
   (strict_prefix (pending (fst (process f chunk))) ''<think>'' \<or>
    strict_prefix (pending (fst (process f chunk))) ''</think>'') \<and>
   (if active (fst (process f chunk))
    then strict_prefix (pending (fst (process f chunk))) ''</think>''
    else strict_prefix (pending (fst (process f chunk))) ''<think>'')"
proof -
  let ?g = "fst (process f chunk)"
  have ok: "if active ?g then strict_prefix (pending ?g) ''</think>''
            else strict_prefix (pending ?g) ''<think>''"
    using process_loop_pending [of "f\<lparr>pending := pending f @ chunk\<rparr>"]
    by (simp add: process_def pending_ok_def)
  have len: "length (pending ?g) \<le> 7"
  proof (cases "active ?g")
    case True
    with ok have "length (pending ?g) < length ''</think>''"
      by (auto dest: strict_prefix_length)
    then show ?thesis by simp
  next
    case False
    with ok have "length (pending ?g) < length ''<think>''"
      by (auto dest: strict_prefix_length)
    then show ?thesis by simp
  qed
  from ok len show ?thesis by (cases "active ?g") simp_all
qed

section \<open>thinkFilter: chunk boundaries do not matter\<close>

lemma content_of_append [simp]: "content_of (xs @ ys) = content_of xs @ content_of ys"
  by (induction xs rule: content_of.induct) auto

lemma tag_of_ne [simp]: "tag_of a \<noteq> []"
  by (simp add: tag_of_def)

lemma partialSuffix_0_take: "partialSuffix s t = 0 \<Longrightarrow> take (length s - partialSuffix s t) s = s"
  by simp

lemma obs_unfold:
  "obs f =
     (if pending f = [] then (f, [])
      else
        (case strIndex (pending f) (tag_of (active f)) of
           Some idx \<Rightarrow>
             (let r = obs (f\<lparr>active := \<not> active f,
                              pending := drop (idx + length (tag_of (active f))) (pending f)\<rparr>)
              in (fst r, vis (active f) (take idx (pending f)) @ snd r))
         | None \<Rightarrow>
             (let n = partialSuffix (pending f) (tag_of (active f)) in
              (f\<lparr>pending := drop (length (pending f) - n) (pending f)\<rparr>,
               vis (active f) (take (length (pending f) - n) (pending f))))))"
  unfolding obs_def
  apply (subst (1 2) process_loop.simps)
  apply (auto simp: tag_of_def vis_def Let_def split: option.splits)
  done


lemma strIndex_SomeD:
  "strIndex s t = Some i \<Longrightarrow> prefix t (drop i s) \<and> i + length t \<le> length s"
proof (induction s arbitrary: i)
  case Nil
  then show ?case by (auto split: if_splits)
next
  case (Cons c cs)
  show ?case
  proof (cases "prefix t (c # cs)")
    case True
    with Cons.prems have "i = 0" by simp
    with True prefix_length_le[OF True] show ?thesis by simp
  next
    case False
    with Cons.prems obtain i' where i': "strIndex cs t = Some i'" "i = Suc i'" by auto
    from Cons.IH[OF i'(1)] i'(2) show ?thesis by simp
  qed
qed

lemma strIndex_NoneD: "strIndex s t = None \<Longrightarrow> \<not> prefix t (drop j s)"
proof (induction s arbitrary: j)
  case Nil
  then show ?case by (auto split: if_splits)
next
  case (Cons c cs)
  then have np: "\<not> prefix t (c # cs)" and n: "strIndex cs t = None"
    by (auto split: if_splits)
  show ?case
  proof (cases j)
    case 0
    with np show ?thesis by simp
  next
    case (Suc k)
    with Cons.IH[OF n, of k] show ?thesis by simp
  qed
qed

lemma strIndex_append_Some:
  "strIndex s t = Some i \<Longrightarrow> strIndex (s @ c) t = Some i"
proof (induction s arbitrary: i)
  case Nil
  then show ?case by (cases c) (auto split: if_splits)
next
  case (Cons a as)
  show ?case
  proof (cases "prefix t (a # as)")
    case True
    with Cons.prems have "i = 0" by simp
    moreover from True have "prefix t ((a # as) @ c)" by (rule prefix_prefix)
    ultimately show ?thesis by simp
  next
    case False
    with Cons.prems obtain i' where i': "strIndex as t = Some i'" "i = Suc i'" by auto
    from strIndex_SomeD[OF i'(1)] have len: "length t \<le> length as" by simp
    have "\<not> prefix t ((a # as) @ c)"
    proof
      assume "prefix t ((a # as) @ c)"
      then have "prefix t (a # as)"
        using len by (metis prefix_length_prefix append_prefixD prefix_order.order_refl prefix_append
            le_SucI length_Cons prefix_length_le)
      with False show False by simp
    qed
    with Cons.IH[OF i'(1)] i'(2) show ?thesis by simp
  qed
qed

lemma strIndex_append_clean:
  assumes "\<And>j. j < length u \<Longrightarrow> \<not> prefix t (drop j (u @ w))"
  shows "strIndex (u @ w) t = map_option (\<lambda>i. length u + i) (strIndex w t)"
  using assms
proof (induction u)
  case Nil
  then show ?case by (simp add: option.map_ident)
next
  case (Cons a u)
  from Cons.prems[of 0] have np: "\<not> prefix t (a # u @ w)" by simp
  have "\<And>j. j < length u \<Longrightarrow> \<not> prefix t (drop j (u @ w))"
    using Cons.prems[of "Suc j" for j] by simp
  from Cons.IH[OF this] np show ?case
    by (simp add: option.map_comp comp_def)
qed

lemma partialSuffix_loop_max:
  "n \<le> N \<Longrightarrow> suffix (take n t) s \<Longrightarrow> n \<le> partialSuffix_loop s t N"
proof (induction N)
  case 0
  then show ?case by simp
next
  case (Suc N)
  show ?case
  proof (cases "suffix (take (Suc N) t) s")
    case True
    with Suc.prems show ?thesis by simp
  next
    case False
    with Suc.prems have "n \<le> N" by (cases "n = Suc N") auto
    with Suc.IH Suc.prems False show ?thesis by simp
  qed
qed

lemma partialSuffix_max:
  "n \<le> length t - 1 \<Longrightarrow> n \<le> length s \<Longrightarrow> suffix (take n t) s \<Longrightarrow> n \<le> partialSuffix s t"
  unfolding partialSuffix_def by (rule partialSuffix_loop_max) auto

lemma partialSuffix_suffix: "suffix (take (partialSuffix s t) t) s"
  unfolding partialSuffix_def by (rule partialSuffix_loop_suffix)


lemma partialSuffix_append_clean:
  assumes clean: "\<And>j. j < length u \<Longrightarrow> \<not> prefix (drop j (u @ w)) t"
  shows "partialSuffix (u @ w) t = partialSuffix w t"
proof (rule antisym)
  let ?n = "partialSuffix (u @ w) t"
  have n_t: "?n \<le> length t - 1" by (rule partialSuffix_le)
  have n_s: "?n \<le> length (u @ w)" by (rule partialSuffix_le_len)
  have dr: "drop (length (u @ w) - ?n) (u @ w) = take ?n t" by (rule partialSuffix_drop)
  have n_w: "?n \<le> length w"
  proof (rule ccontr)
    assume "\<not> ?n \<le> length w"
    then have j: "length (u @ w) - ?n < length u" using n_s by simp
    have "prefix (drop (length (u @ w) - ?n) (u @ w)) t"
      unfolding dr by (rule take_is_prefix)
    with clean[OF j] show False by simp
  qed
  have "drop (length w - ?n) w = take ?n t"
    using dr n_w by simp
  then have "suffix (take ?n t) w"
    by (metis suffix_drop)
  with n_t n_w show "?n \<le> partialSuffix w t" by (intro partialSuffix_max)
next
  let ?m = "partialSuffix w t"
  have "suffix (take ?m t) w" by (rule partialSuffix_suffix)
  then have "suffix (take ?m t) (u @ w)" by (rule suffix_appendI)
  moreover have "?m \<le> length t - 1" by (rule partialSuffix_le)
  moreover have "?m \<le> length (u @ w)" using partialSuffix_le_len[of w t] by simp
  ultimately show "?m \<le> partialSuffix (u @ w) t" by (intro partialSuffix_max)
qed

lemma no_partial_before_suffix:
  assumes none: "strIndex s t = None" and j: "j < length s - partialSuffix s t"
  shows "\<not> prefix (drop j s) t"
proof
  assume p: "prefix (drop j s) t"
  define a where "a = drop j s"
  define m where "m = length a"
  have la: "m = length s - j" by (simp add: m_def a_def)
  from p have a: "a = take m t"
    unfolding a_def m_def by (metis append_eq_conv_conj prefix_def)
  show False
  proof (cases "m = length t")
    case True
    with a have "a = t" by simp
    then have "prefix t (drop j s)" by (simp add: a_def)
    with strIndex_NoneD[OF none] show False by blast
  next
    case False
    moreover from p have "m \<le> length t" unfolding m_def a_def by (rule prefix_length_le)
    ultimately have 1: "m \<le> length t - 1" by simp
    have 2: "m \<le> length s" by (simp add: la)
    have "suffix a s" unfolding a_def by (rule suffix_drop)
    with a have 3: "suffix (take m t) s" by simp
    from partialSuffix_max[OF 1 2 3] j la show False by simp
  qed
qed

lemma clean_before_suffix:
  assumes none: "strIndex s t = None" and j: "j < length s - partialSuffix s t"
  shows "\<not> prefix t (drop j (s @ c)) \<and> \<not> prefix (drop j (s @ c)) t"
proof -
  from j have js: "j < length s" by simp
  then have d: "drop j (s @ c) = drop j s @ c" by simp
  have np: "\<not> prefix (drop j s) t" by (rule no_partial_before_suffix[OF none j])
  have nt: "\<not> prefix t (drop j s)" by (rule strIndex_NoneD[OF none])
  have "\<not> prefix t (drop j s @ c)"
    using np nt by (auto simp: prefix_append)
  moreover have "\<not> prefix (drop j s @ c) t"
    using np by (meson append_prefixD)
  ultimately show ?thesis unfolding d by simp
qed

lemma obs_append_clean:
  assumes p: "pending f = u @ w"
    and clean: "\<And>j. j < length u \<Longrightarrow>
       \<not> prefix (tag_of (active f)) (drop j (u @ w)) \<and> \<not> prefix (drop j (u @ w)) (tag_of (active f))"
  shows "obs f = (fst (obs (f\<lparr>pending := w\<rparr>)), vis (active f) u @ snd (obs (f\<lparr>pending := w\<rparr>)))"
proof -
  let ?t = "tag_of (active f)"
  let ?g = "f\<lparr>pending := w\<rparr>"
  have idx: "strIndex (u @ w) ?t = map_option (\<lambda>i. length u + i) (strIndex w ?t)"
    by (rule strIndex_append_clean) (use clean in blast)
  have ps: "partialSuffix (u @ w) ?t = partialSuffix w ?t"
    by (rule partialSuffix_append_clean) (use clean in blast)
  have psw: "partialSuffix w ?t \<le> length w" by (rule partialSuffix_le_len)
  note L = obs_unfold[of f]
  note R = obs_unfold[of ?g]
  show ?thesis
  proof (cases "u = []")
    case True
    with p have "f\<lparr>pending := w\<rparr> = f" by simp
    with True show ?thesis by (simp add: vis_def)
  next
    case False
    show ?thesis
    proof (cases "strIndex w ?t")
      case None
      have w0: "w = [] \<Longrightarrow> partialSuffix w ?t = 0"
        using psw by simp
      show ?thesis
      proof (cases "w = []")
        case True
        have "obs ?g = (?g, [])" using True by (subst R) simp
        moreover have "obs f = (f\<lparr>pending := []\<rparr>, vis (active f) u)"
          using False None idx ps p w0 True by (subst L) (simp add: Let_def)
        ultimately show ?thesis using True by simp
      next
        case wne: False
        have "obs ?g = (f\<lparr>pending := drop (length w - partialSuffix w ?t) w\<rparr>,
             vis (active f) (take (length w - partialSuffix w ?t) w))"
          using wne None by (subst R) (simp add: Let_def)
        moreover have "obs f = (f\<lparr>pending := drop (length w - partialSuffix w ?t) w\<rparr>,
             vis (active f) (u @ take (length w - partialSuffix w ?t) w))"
          using False None idx ps p psw by (subst L) (simp add: Let_def)
        ultimately show ?thesis by (simp add: vis_def)
      qed
    next
      case (Some i)
      from strIndex_SomeD[OF Some] have "i + length ?t \<le> length w" by simp
      then have wne: "w \<noteq> []" by auto
      let ?h = "f\<lparr>active := \<not> active f, pending := drop (i + length ?t) w\<rparr>"
      have "obs ?g = (fst (obs ?h), vis (active f) (take i w) @ snd (obs ?h))"
        using wne Some by (subst R) (simp add: Let_def)
      moreover have "obs f = (fst (obs ?h), vis (active f) (u @ take i w) @ snd (obs ?h))"
        using False Some idx p by (subst L) (simp add: Let_def add.assoc)
      ultimately show ?thesis by (simp add: vis_def)
    qed
  qed
qed


lemma obs_append:
  "obs (f\<lparr>pending := pending f @ c\<rparr>) =
     (fst (obs ((fst (obs f))\<lparr>pending := pending (fst (obs f)) @ c\<rparr>)),
      snd (obs f) @ snd (obs ((fst (obs f))\<lparr>pending := pending (fst (obs f)) @ c\<rparr>)))"
proof (induction "length (pending f)" arbitrary: f rule: less_induct)
  case less
  let ?t = "tag_of (active f)"
  let ?s = "pending f"
  show ?case
  proof (cases "?s = []")
    case True
    then have "obs f = (f, [])" by (subst obs_unfold) simp
    with True show ?thesis by simp
  next
    case ne: False
    show ?thesis
    proof (cases "strIndex ?s ?t")
      case (Some i)
      let ?h = "f\<lparr>active := \<not> active f, pending := drop (i + length ?t) ?s\<rparr>"
      from strIndex_SomeD[OF Some] have le: "i + length ?t \<le> length ?s" by simp
      have of: "obs f = (fst (obs ?h), vis (active f) (take i ?s) @ snd (obs ?h))"
        using ne Some by (subst obs_unfold) (simp add: Let_def)
      have "length (pending ?h) < length ?s" using ne by simp
      note IH = less[OF this]
      have hc: "?h\<lparr>pending := pending ?h @ c\<rparr> =
            f\<lparr>active := \<not> active f, pending := drop (i + length ?t) (?s @ c)\<rparr>"
        using le by simp
      have "obs (f\<lparr>pending := ?s @ c\<rparr>) =
          (fst (obs (?h\<lparr>pending := pending ?h @ c\<rparr>)),
           vis (active f) (take i ?s) @ snd (obs (?h\<lparr>pending := pending ?h @ c\<rparr>)))"
        unfolding hc
        using ne strIndex_append_Some[OF Some, of c] le
        by (subst obs_unfold) (simp add: Let_def)
      then show ?thesis unfolding IH of by simp
    next
      case None
      let ?n = "partialSuffix ?s ?t"
      let ?u = "take (length ?s - ?n) ?s"
      let ?v = "drop (length ?s - ?n) ?s"
      have of: "obs f = (f\<lparr>pending := ?v\<rparr>, vis (active f) ?u)"
        using ne None by (subst obs_unfold) (simp add: Let_def)
      let ?g = "f\<lparr>pending := ?s @ c\<rparr>"
      have pg: "pending ?g = ?u @ (?v @ c)" by simp
      have eq: "?u @ (?v @ c) = ?s @ c"
        by (simp only: append_assoc[symmetric] append_take_drop_id)
      have cl: "\<And>j. j < length ?u \<Longrightarrow>
          \<not> prefix (tag_of (active ?g)) (drop j (?u @ (?v @ c))) \<and>
          \<not> prefix (drop j (?u @ (?v @ c))) (tag_of (active ?g))"
      proof -
        fix j assume "j < length ?u"
        then have "j < length ?s - ?n" by simp
        from clean_before_suffix[OF None this, of c]
        show "\<not> prefix (tag_of (active ?g)) (drop j (?u @ (?v @ c))) \<and>
          \<not> prefix (drop j (?u @ (?v @ c))) (tag_of (active ?g))"
          unfolding eq by simp
      qed
      from obs_append_clean[OF pg cl]
      have "obs ?g = (fst (obs (?g\<lparr>pending := ?v @ c\<rparr>)),
                vis (active f) ?u @ snd (obs (?g\<lparr>pending := ?v @ c\<rparr>)))"
        by simp
      then show ?thesis unfolding of by simp
    qed
  qed
qed


lemma obs_settled: "obs (fst (obs g)) = (fst (obs g), [])"
proof -
  from obs_append[of g "[]"]
  have "obs g = (fst (obs (fst (obs g))), snd (obs g) @ snd (obs (fst (obs g))))"
    by simp
  then have "fst (obs g) = fst (obs (fst (obs g)))" and "snd (obs g) = snd (obs g) @ snd (obs (fst (obs g)))"
    by (metis fst_conv, metis snd_conv)
  then show ?thesis by (metis prod.collapse self_append_conv)
qed

lemma process_obs: "(fst (process f c), content_of (snd (process f c))) = obs (f\<lparr>pending := pending f @ c\<rparr>)"
  by (simp add: process_def obs_def)

lemma feed_obs:
  "obs f = (f, []) \<Longrightarrow>
   (fst (feed f cs), content_of (snd (feed f cs))) = obs (f\<lparr>pending := pending f @ concat cs\<rparr>)"
proof (induction cs arbitrary: f)
  case Nil
  then show ?case by simp
next
  case (Cons c cs)
  let ?g = "f\<lparr>pending := pending f @ c\<rparr>"
  let ?f1 = "fst (process f c)"
  have f1: "?f1 = fst (obs ?g)" and e1: "content_of (snd (process f c)) = snd (obs ?g)"
    using process_obs[of f c] by (metis fst_conv, metis snd_conv)
  have "obs ?f1 = (?f1, [])" unfolding f1 by (rule obs_settled)
  from Cons.IH[OF this]
  have IH: "fst (feed ?f1 cs) = fst (obs (?f1\<lparr>pending := pending ?f1 @ concat cs\<rparr>))"
       "content_of (snd (feed ?f1 cs)) = snd (obs (?f1\<lparr>pending := pending ?f1 @ concat cs\<rparr>))"
    by (metis fst_conv, metis snd_conv)
  have "obs (f\<lparr>pending := pending f @ concat (c # cs)\<rparr>) = obs (?g\<lparr>pending := pending ?g @ concat cs\<rparr>)"
    by simp
  also have "\<dots> = (fst (obs (?f1\<lparr>pending := pending ?f1 @ concat cs\<rparr>)),
       snd (obs ?g) @ snd (obs (?f1\<lparr>pending := pending ?f1 @ concat cs\<rparr>)))"
    unfolding f1 by (rule obs_append)
  finally show ?case
    using IH e1 by (simp add: Let_def)
qed

lemma obs_newFilter: "obs newFilter = (newFilter, [])"
  by (subst obs_unfold) (simp add: newFilter_def)

text \<open>
  C4. For every list of chunks, pushing the chunks one by one through \<open>process\<close>
  on a new filter and then calling \<open>flush\<close> passes to \<open>writeContent\<close>, in
  total and in order, the same bytes as pushing the concatenation of the chunks in one
  call of \<open>process\<close> followed by \<open>flush\<close>.
\<close>

theorem filter_chunking_invariant:
  "content_of (filter_events chunks) = content_of (filter_events [concat chunks])"
proof -
  have a: "(fst (feed newFilter chunks), content_of (snd (feed newFilter chunks))) =
        obs (newFilter\<lparr>pending := pending newFilter @ concat chunks\<rparr>)"
    by (rule feed_obs[OF obs_newFilter])
  have b: "(fst (feed newFilter [concat chunks]), content_of (snd (feed newFilter [concat chunks]))) =
        obs (newFilter\<lparr>pending := pending newFilter @ concat [concat chunks]\<rparr>)"
    by (rule feed_obs[OF obs_newFilter])
  from a b have "fst (feed newFilter chunks) = fst (feed newFilter [concat chunks])"
    and "content_of (snd (feed newFilter chunks)) = content_of (snd (feed newFilter [concat chunks]))"
    by (simp_all add: prod_eq_iff)
  then show ?thesis
    unfolding filter_events_def Let_def content_of_append by simp
qed

section \<open>Token budget: what capMaxTokens returns\<close>

text \<open>
  C5, as the code has it. With a positive context limit the function returns the floor
  256 whenever less than 256 tokens are available, and otherwise the smaller of the
  requested size and the available size. This is
  \<open>min maxTokens (max 256 (contextLimit - estimate))\<close> exactly when the requested
  size is at least the floor; a smaller request is raised to 256 when fewer than 256
  tokens are available and returned as it is otherwise. With a context limit of 0 or
  less the requested size comes back unchanged. The two examples of the claim hold.
\<close>

theorem capMaxTokens_floor_then_min:
  "capMaxTokens contextLimit maxTokens messages =
     (if contextLimit \<le> 0 then maxTokens
      else if 256 \<le> maxTokens
        then min maxTokens (max 256 (contextLimit - estimateTokens messages))
      else if contextLimit - estimateTokens messages < 256 then 256
      else maxTokens) \<and>
   (estimateTokens ms1 = 900 \<longrightarrow> capMaxTokens 1000 maxTokens ms1 = 256) \<and>
   (estimateTokens ms2 = 200 \<longrightarrow> capMaxTokens 1000 500 ms2 = 500)"
  by (simp add: capMaxTokens_def minOutput_def Let_def)

theorem capMaxTokens_floor_then_min_witness:
  "estimateTokens
     [\<lparr>Role = ''user'', Content = replicate 2542 (CHR ''a''), ToolCalls = [],
       ToolCallID = ''''\<rparr>] = 900 \<and>
   capMaxTokens 1000 4096
     [\<lparr>Role = ''user'', Content = replicate 2542 (CHR ''a''), ToolCalls = [],
       ToolCallID = ''''\<rparr>] = 256 \<and>
   estimateTokens
     [\<lparr>Role = ''user'', Content = replicate 442 (CHR ''a''), ToolCalls = [],
       ToolCallID = ''''\<rparr>] = 200 \<and>
   capMaxTokens 1000 500
     [\<lparr>Role = ''user'', Content = replicate 442 (CHR ''a''), ToolCalls = [],
       ToolCallID = ''''\<rparr>] = 500"
proof -
  let ?m1 = "[\<lparr>Role = ''user'', Content = replicate 2542 (CHR ''a''), ToolCalls = [],
       ToolCallID = ''''\<rparr>]"
  let ?m2 = "[\<lparr>Role = ''user'', Content = replicate 442 (CHR ''a''), ToolCalls = [],
       ToolCallID = ''''\<rparr>]"
  have e1: "estimateTokens ?m1 = 900" by (simp add: estimateTokens_def)
  have e2: "estimateTokens ?m2 = 200" by (simp add: estimateTokens_def)
  from capMaxTokens_floor_then_min [of 1000 4096 "[]" ?m1 ?m2] e1 e2
  show ?thesis by simp
qed

theorem capMaxTokens_min_max_counterexample:
  "capMaxTokens 300 100 [] = 256 \<and>
   min 100 (max 256 (300 - estimateTokens [])) = (100::int)"
  by (simp add: capMaxTokens_def minOutput_def estimateTokens_def)

section \<open>The stream decoder: tool calls from fragments\<close>

lemma map_of_tcMap_step:
  "map_of (tcMap_step m tc) k =
     (if k = Index tc then slot_step (map_of m k) tc else map_of m k)"
  by (cases "map_of m (Index tc)")
     (simp_all add: tcMap_step_def slot_step_def update_conv' Let_def)

lemma map_of_foldl_tcMap_step:
  "map_of (foldl tcMap_step m frs) k =
     foldl slot_step (map_of m k) (filter (\<lambda>f. Index f = k) frs)"
  by (induction frs arbitrary: m) (auto simp: map_of_tcMap_step)

lemma keys_tcMap_step: "fst ` set (tcMap_step m tc) = insert (Index tc) (fst ` set m)"
  by (cases "map_of m (Index tc)") (simp_all add: tcMap_step_def dom_update Let_def)

lemma distinct_tcMap_step:
  "distinct (map fst m) \<Longrightarrow> distinct (map fst (tcMap_step m tc))"
  by (cases "map_of m (Index tc)") (simp_all add: tcMap_step_def distinct_update Let_def)

lemma keys_foldl_tcMap_step:
  "fst ` set (foldl tcMap_step m frs) = fst ` set m \<union> Index ` set frs"
  by (induction frs arbitrary: m) (auto simp: keys_tcMap_step)

lemma distinct_foldl_tcMap_step:
  "distinct (map fst m) \<Longrightarrow> distinct (map fst (foldl tcMap_step m frs))"
  by (induction frs arbitrary: m) (auto simp: distinct_tcMap_step)

lemma slot_step_None:
  "slot_step None g =
     Some \<lparr>ID = stc_ID g, Type = stc_Type g,
           Function = \<lparr>Name = sfc_Name (stc_Function g),
                       Arguments = sfc_Arguments (stc_Function g)\<rparr>\<rparr>"
  by (simp add: slot_step_def tcMap_step_def)

lemma slot_step_Some_same:
  assumes "stc_ID h = [] \<or> stc_ID h = ID e"
    and "sfc_Name (stc_Function h) = [] \<or> sfc_Name (stc_Function h) = Name (Function e)"
  shows "slot_step (Some e) h =
     Some (e\<lparr>Function := (Function e)
              \<lparr>Arguments := Arguments (Function e) @ sfc_Arguments (stc_Function h)\<rparr>\<rparr>)"
  using assms by (auto simp: slot_step_def tcMap_step_def Let_def)

lemma foldl_slot_step_later:
  assumes "list_all (\<lambda>h. (stc_ID h = [] \<or> stc_ID h = ID e) \<and>
             (sfc_Name (stc_Function h) = [] \<or> sfc_Name (stc_Function h) = Name (Function e))) gs"
  shows "foldl slot_step (Some e) gs =
     Some (e\<lparr>Function := (Function e)
              \<lparr>Arguments := Arguments (Function e) @
                   concat (map (\<lambda>h. sfc_Arguments (stc_Function h)) gs)\<rparr>\<rparr>)"
  using assms
proof (induction gs arbitrary: e)
  case Nil
  then show ?case by simp
next
  case (Cons h gs)
  let ?e' = "e\<lparr>Function := (Function e)
              \<lparr>Arguments := Arguments (Function e) @ sfc_Arguments (stc_Function h)\<rparr>\<rparr>"
  from Cons.prems have h: "slot_step (Some e) h = Some ?e'"
    by (intro slot_step_Some_same) simp_all
  from Cons.prems have "list_all (\<lambda>h. (stc_ID h = [] \<or> stc_ID h = ID ?e') \<and>
             (sfc_Name (stc_Function h) = [] \<or> sfc_Name (stc_Function h) = Name (Function ?e'))) gs"
    by simp
  from Cons.IH[OF this] h show ?case by simp
qed

lemma foldl_slot_step_arrives:
  "arrives_as c gs \<Longrightarrow> foldl slot_step None gs = Some c"
proof (cases gs)
  case Nil
  assume "arrives_as c gs"
  with Nil show ?thesis by simp
next
  case (Cons g gs')
  assume a: "arrives_as c gs"
  let ?e = "\<lparr>ID = stc_ID g, Type = stc_Type g,
           Function = \<lparr>Name = sfc_Name (stc_Function g),
                       Arguments = sfc_Arguments (stc_Function g)\<rparr>\<rparr>"
  from a Cons have later: "list_all (\<lambda>h. (stc_ID h = [] \<or> stc_ID h = ID ?e) \<and>
       (sfc_Name (stc_Function h) = [] \<or> sfc_Name (stc_Function h) = Name (Function ?e))) gs'"
    by simp
  from a Cons have "c = ?e\<lparr>Function := (Function ?e)
              \<lparr>Arguments := Arguments (Function ?e) @
                   concat (map (\<lambda>h. sfc_Arguments (stc_Function h)) gs')\<rparr>\<rparr>"
    by simp
  with foldl_slot_step_later[OF later] Cons show ?thesis
    by (simp add: slot_step_None)
qed

lemma map_filter_all_Some:
  "(\<And>x. x \<in> set xs \<Longrightarrow> f x = Some (g x)) \<Longrightarrow> List.map_filter f xs = map g xs"
  by (induction xs) (simp_all add: map_filter_simps)

lemma finalize_all_slots:
  assumes d: "distinct (map fst m)"
    and keys: "fst ` set m = int ` {0..<n}"
    and vals: "\<And>i. i < n \<Longrightarrow> map_of m (int i) = Some (calls ! i)"
    and n: "n = length calls"
  shows "finalize m = calls"
proof -
  have "card (fst ` set m) = n" unfolding keys by (simp add: card_image)
  moreover have "card (fst ` set m) = length m"
    using d by (metis distinct_card length_map set_map)
  ultimately have len: "length m = n" by simp
  have "List.map_filter (\<lambda>i. map_of m (int i)) [0..<n] = map (\<lambda>i. calls ! i) [0..<n]"
    using vals by (intro map_filter_all_Some) simp
  then show ?thesis unfolding finalize_def len n by (simp add: map_nth)
qed

lemma decode_fragments:
  assumes range: "list_all (\<lambda>f. 0 \<le> Index f \<and> Index f < int (length calls)) frs"
    and slots: "\<And>i. i < length calls \<Longrightarrow> arrives_as (calls ! i) (filter (\<lambda>f. Index f = int i) frs)"
  shows "finalize (foldl tcMap_step [] frs) = calls"
proof (rule finalize_all_slots[where n = "length calls"])
  show "distinct (map fst (foldl tcMap_step [] frs))"
    by (rule distinct_foldl_tcMap_step) simp
  show "fst ` set (foldl tcMap_step [] frs) = int ` {0..<length calls}"
  proof
    show "fst ` set (foldl tcMap_step [] frs) \<subseteq> int ` {0..<length calls}"
    proof
      fix k assume "k \<in> fst ` set (foldl tcMap_step [] frs)"
      then obtain f where f: "f \<in> set frs" "k = Index f"
        by (auto simp: keys_foldl_tcMap_step)
      with range have "0 \<le> k" "k < int (length calls)" by (auto simp: list_all_iff)
      then have "k = int (nat k)" "nat k < length calls" by auto
      then show "k \<in> int ` {0..<length calls}" by (metis atLeastLessThan_iff image_eqI le0)
    qed
    show "int ` {0..<length calls} \<subseteq> fst ` set (foldl tcMap_step [] frs)"
    proof
      fix k assume "k \<in> int ` {0..<length calls}"
      then obtain i where i: "i < length calls" "k = int i" by auto
      from slots[OF i(1)] have "filter (\<lambda>f. Index f = int i) frs \<noteq> []"
        by (cases "filter (\<lambda>f. Index f = int i) frs") auto
      then obtain f where "f \<in> set frs" "Index f = int i"
        by (metis (mono_tags, lifting) filter_False)
      then have "int i \<in> Index ` set frs" by (metis imageI)
      with i show "k \<in> fst ` set (foldl tcMap_step [] frs)"
        by (simp add: keys_foldl_tcMap_step)
    qed
  qed
  show "map_of (foldl tcMap_step [] frs) (int i) = Some (calls ! i)" if "i < length calls" for i
    using foldl_slot_step_arrives[OF slots[OF that]]
    by (simp add: map_of_foldl_tcMap_step)
  show "length calls = length calls" ..
qed

lemma tcMap_foldl_choice:
  "tcMap (foldl doStream_choice st chs) =
     foldl tcMap_step (tcMap st) (concat (map (\<lambda>ch. sd_ToolCalls (Delta ch)) chs))"
  by (induction chs arbitrary: st)
     (auto simp: doStream_choice_def Let_def split: option.splits)

lemma tcMap_foldl_chunks:
  "tcMap (foldl (\<lambda>st chunk. foldl doStream_choice st (Choices chunk)) st chunks) =
     foldl tcMap_step (tcMap st) (fragments_of chunks)"
  by (induction chunks arbitrary: st) (simp_all add: fragments_of_def tcMap_foldl_choice)

lemma tcMap_decodeChunks:
  "tcMap (decodeChunks chunks) = foldl tcMap_step [] (fragments_of chunks)"
  by (simp add: decodeChunks_def tcMap_foldl_chunks)

lemma doStream_scan_chunks:
  "fst (doStream_scan unm lines st) =
     foldl (\<lambda>st chunk. foldl doStream_choice st (Choices chunk)) st (chunks_of_lines unm lines)"
  by (induction lines arbitrary: st) (auto simp: Let_def split: option.splits)

lemma doStream_toolCalls:
  assumes "doStream env reqBody w = (Inr r, w')"
  shows "\<exists>resp. post env reqBody w = (Responds resp, w') \<and>
           sr_ToolCalls r =
             finalize (tcMap (decodeChunks (chunks_of_lines (unmarshalChunk env) (scanLines resp))))"
proof -
  obtain x w1 where p: "post env reqBody w = (x, w1)" by (cases "post env reqBody w")
  show ?thesis
  proof (cases x)
    case (Responds resp)
    obtain st ex where sc: "doStream_scan (unmarshalChunk env) (scanLines resp)
                    \<lparr>content = [], tcMap = []\<rparr> = (st, ex)"
      by (cases "doStream_scan (unmarshalChunk env) (scanLines resp) \<lparr>content = [], tcMap = []\<rparr>")
    have "st = decodeChunks (chunks_of_lines (unmarshalChunk env) (scanLines resp))"
      using doStream_scan_chunks[of "unmarshalChunk env" "scanLines resp" "\<lparr>content = [], tcMap = []\<rparr>"] sc
      by (simp add: decodeChunks_def)
    with assms p Responds sc show ?thesis
      by (auto simp: doStream_def split: if_splits option.splits)
  qed (use assms p in \<open>auto simp: doStream_def\<close>)
qed

lemma filter_eq_upt: "i < n \<Longrightarrow> filter (\<lambda>j. j = i) [0..<n] = [i]"
  by (induction n) (auto simp: less_Suc_eq)

lemma fragments_of_atomic_stream:
  "fragments_of (atomic_stream calls) =
     map (\<lambda>i. atomic_fragment (int i) (calls ! i)) [0..<length calls]"
  by (simp add: fragments_of_def atomic_stream_def chunk_of_def comp_def concat_map_singleton)

lemma decode_atomic_stream: "finalize (tcMap (decodeChunks (atomic_stream calls))) = calls"
  unfolding tcMap_decodeChunks fragments_of_atomic_stream
proof (rule decode_fragments)
  show "list_all (\<lambda>f. 0 \<le> Index f \<and> Index f < int (length calls))
          (map (\<lambda>i. atomic_fragment (int i) (calls ! i)) [0..<length calls])"
    by (simp add: list_all_iff atomic_fragment_def)
next
  fix i assume i: "i < length calls"
  have "filter (\<lambda>f. Index f = int i)
          (map (\<lambda>i. atomic_fragment (int i) (calls ! i)) [0..<length calls]) =
        map (\<lambda>i. atomic_fragment (int i) (calls ! i)) (filter (\<lambda>j. j = i) [0..<length calls])"
    by (simp add: filter_map comp_def atomic_fragment_def)
  also have "\<dots> = [atomic_fragment (int i) (calls ! i)]"
    by (simp add: filter_eq_upt[OF i])
  finally show "arrives_as (calls ! i)
     (filter (\<lambda>f. Index f = int i)
        (map (\<lambda>i. atomic_fragment (int i) (calls ! i)) [0..<length calls]))"
    by (simp add: atomic_fragment_def)
qed

text \<open>
  C3, as the code has it. Let the server deliver \<open>n\<close> calls in the slots \<open>0\<close> to
  \<open>n - 1\<close>, cut into fragments in any way in which every slot gets its call's id,
  type and name whole in its first fragment, its arguments in any number of pieces,
  and later fragments that leave id and name empty or repeat them; the slots may start
  in any order and their fragments may interleave across chunks. Then the decoder
  finalizes exactly these calls in ascending slot order, with the arguments
  concatenated, which is also what it finalizes when every call arrives whole in one
  chunk.
\<close>

theorem decoder_assembles_fragments:
  assumes "list_all (\<lambda>f. 0 \<le> Index f \<and> Index f < int (length calls)) (fragments_of chunks)"
    and "\<And>i. i < length calls \<Longrightarrow>
           arrives_as (calls ! i) (filter (\<lambda>f. Index f = int i) (fragments_of chunks))"
  shows "finalize (tcMap (decodeChunks chunks)) = calls \<and>
         finalize (tcMap (decodeChunks chunks)) =
           finalize (tcMap (decodeChunks (atomic_stream calls)))"
proof -
  have "finalize (tcMap (decodeChunks chunks)) = calls"
    unfolding tcMap_decodeChunks using assms by (rule decode_fragments)
  then show ?thesis by (simp add: decode_atomic_stream)
qed

lemma fragmented_stream_slots:
  "i < length [call_a, call_b] \<Longrightarrow>
     arrives_as ([call_a, call_b] ! i)
       (filter (\<lambda>f. Index f = int i) (fragments_of fragmented_stream))"
  by (cases i; cases "i - 1")
     (simp_all add: fragments_of_def fragmented_stream_def chunk_of_def call_a_def call_b_def)

theorem decoder_assembles_fragments_witness:
  "list_all (\<lambda>f. 0 \<le> Index f \<and> Index f < int (length [call_a, call_b]))
     (fragments_of fragmented_stream) \<and>
   arrives_as call_a (filter (\<lambda>f. Index f = 0) (fragments_of fragmented_stream)) \<and>
   arrives_as call_b (filter (\<lambda>f. Index f = 1) (fragments_of fragmented_stream)) \<and>
   finalize (tcMap (decodeChunks fragmented_stream)) = [call_a, call_b] \<and>
   finalize (tcMap (decodeChunks fragmented_stream)) =
     finalize (tcMap (decodeChunks (atomic_stream [call_a, call_b])))"
proof -
  have r: "list_all (\<lambda>f. 0 \<le> Index f \<and> Index f < int (length [call_a, call_b]))
     (fragments_of fragmented_stream)"
    by (simp add: fragments_of_def fragmented_stream_def chunk_of_def)
  have a: "arrives_as call_a (filter (\<lambda>f. Index f = 0) (fragments_of fragmented_stream))"
    using fragmented_stream_slots[of 0] by simp
  have b: "arrives_as call_b (filter (\<lambda>f. Index f = 1) (fragments_of fragmented_stream))"
    using fragmented_stream_slots[of 1] by simp
  from decoder_assembles_fragments[of "[call_a, call_b]" fragmented_stream, OF r fragmented_stream_slots]
       r a b
  show ?thesis by auto
qed

theorem split_name_counterexample:
  "finalize (tcMap (decodeChunks split_name_stream)) =
     [call_a\<lparr>Function := (Function call_a)\<lparr>Name := ''weather''\<rparr>\<rparr>] \<and>
   finalize (tcMap (decodeChunks (atomic_stream [call_a]))) = [call_a] \<and>
   Name (Function call_a) = ''get_weather''"
  by (simp add: finalize_def decodeChunks_def split_name_stream_def atomic_stream_def
        chunk_of_def atomic_fragment_def doStream_choice_def tcMap_step_def call_a_def
        map_filter_simps)

section \<open>The MCP client: the response in an event stream\<close>

lemma parseSSE_scan_first: "parseSSE_scan unm lines = first_response_frame unm lines"
  by (induction lines)
     (auto simp: first_response_frame_def data_frames_def map_filter_simps Let_def
           split: option.splits)

text \<open>
  C8, as the code has it. Over the lines that the scanner delivers from the body,
  \<open>parseSSE\<close> returns the first frame that unmarshals into a JSON-RPC response and
  carries an id, where the frames are the lines with the literal prefix \<open>data: \<close>
  (the colon and one space): lines without this prefix, among them lines that have
  \<open>data:\<close> with no space behind it, frames that do not unmarshal and frames without
  an id are passed over. When there is no such frame it returns the read error of the
  scanner if there is one, and the error that no response was found otherwise. In
  particular a notification without id followed by the response with id 1 gives the
  response with id 1.
\<close>

theorem parseSSE_first_response:
  "parseSSE unm body =
     (case first_response_frame unm (scanLines body) of
        Some r \<Rightarrow> Inr r
      | None \<Rightarrow> Inl (case scanErr body of Some e \<Rightarrow> RpcSSERead e | None \<Rightarrow> RpcNoResponse)) \<and>
   (unm n = Some notification \<and> rs_ID notification = None \<and>
    unm d = Some response \<and> rs_ID response = Some 1 \<and>
    scanLines body = [''data: '' @ n, ''data: '' @ d]
      \<longrightarrow> parseSSE unm body = Inr response)"
  by (auto simp: parseSSE_def parseSSE_scan_first first_response_frame_def data_frames_def
        map_filter_simps split: option.splits)

theorem parseSSE_first_response_witness:
  "first_response_frame sse_unmarshal (scanLines sse_body) = Some sse_response \<and>
   parseSSE sse_unmarshal sse_body = Inr sse_response \<and>
   sse_unmarshal ''{jsonrpc:2.0,method:notifications/message}'' = Some sse_notification \<and>
   rs_ID sse_notification = None \<and>
   sse_unmarshal ''{jsonrpc:2.0,id:1,result:{tools:[]}}'' = Some sse_response \<and>
   rs_ID sse_response = Some 1 \<and>
   parseSSE sse_unmarshal
     (sse_body\<lparr>scanLines := [''data: '' @ ''{jsonrpc:2.0,method:notifications/message}'',
                             ''data: '' @ ''{jsonrpc:2.0,id:1,result:{tools:[]}}'']\<rparr>) =
     Inr sse_response"
proof -
  have f: "first_response_frame sse_unmarshal (scanLines sse_body) = Some sse_response"
    by (simp add: first_response_frame_def data_frames_def map_filter_simps sse_body_def
          sse_unmarshal_def sse_notification_def sse_response_def)
  have n: "sse_unmarshal ''{jsonrpc:2.0,method:notifications/message}'' = Some sse_notification"
    and r: "sse_unmarshal ''{jsonrpc:2.0,id:1,result:{tools:[]}}'' = Some sse_response"
    by (simp_all add: sse_unmarshal_def)
  have i: "rs_ID sse_notification = None" "rs_ID sse_response = Some 1"
    by (simp_all add: sse_notification_def sse_response_def)
  from parseSSE_first_response[of sse_unmarshal sse_body, THEN conjunct1]
  have 1: "parseSSE sse_unmarshal sse_body = Inr sse_response"
    by (simp add: f)
  from parseSSE_first_response[of sse_unmarshal
      "sse_body\<lparr>scanLines := [''data: '' @ ''{jsonrpc:2.0,method:notifications/message}'',
                             ''data: '' @ ''{jsonrpc:2.0,id:1,result:{tools:[]}}'']\<rparr>"
      "''{jsonrpc:2.0,method:notifications/message}''" sse_notification
      "''{jsonrpc:2.0,id:1,result:{tools:[]}}''" sse_response, THEN conjunct2] n r i
  have 2: "parseSSE sse_unmarshal
     (sse_body\<lparr>scanLines := [''data: '' @ ''{jsonrpc:2.0,method:notifications/message}'',
                             ''data: '' @ ''{jsonrpc:2.0,id:1,result:{tools:[]}}'']\<rparr>) =
     Inr sse_response"
    by simp
  from f 1 2 n r i show ?thesis by simp
qed

text \<open>
  A frame whose \<open>data:\<close> is not followed by a space is not a frame for
  \<open>parseSSE\<close>: of a response with id 3 sent so and a response with id 1 behind it,
  the second is returned, where the first is the first \<open>data\<close> payload that parses
  and carries an id.
\<close>

theorem parseSSE_nospace_counterexample:
  "parseSSE sse_unmarshal_3 sse_body_nospace = Inr sse_response \<and>
   spec_response_frame sse_unmarshal_3 (scanLines sse_body_nospace) = Some sse_response_3 \<and>
   rs_ID sse_response = Some 1 \<and> rs_ID sse_response_3 = Some 3"
  by (simp add: parseSSE_def spec_response_frame_def data_payload_def sse_body_nospace_def
        sse_unmarshal_3_def sse_unmarshal_def sse_response_def sse_response_3_def
        sse_notification_def map_filter_simps)

section \<open>The MCP client: the session token\<close>

lemma header_Get_Set: "header_Get canon (header_Set canon h k v) k = v"
  by (simp add: header_Get_def header_Set_def update_conv')

lemma newPOST_session:
  "sessionID s \<noteq> [] \<Longrightarrow>
   header_Get (canonicalKey env) (hr_Header (newPOST env s payload)) ''Mcp-Session-Id'' = sessionID s"
  by (simp add: newPOST_def Let_def header_Get_Set)

lemma carries_token_append:
  "carries_token canon tok (l1 @ l2) =
     (carries_token canon tok l1 \<and> carries_token canon (foldl (token_step canon) tok l1) l2)"
  by (induction l1 arbitrary: tok) auto

lemma rpcCall_token:
  "carries_token (canonicalKey env) (sessionID s) (fst (snd (snd (rpcCall env s req w)))) \<and>
   sessionID (fst (rpcCall env s req w)) =
     foldl (token_step (canonicalKey env)) (sessionID s) (fst (snd (snd (rpcCall env s req w))))"
  by (auto simp: rpcCall_def Let_def token_step_def newPOST_session
        split: sum.splits option.splits prod.splits)

lemma rpcNotify_token:
  "carries_token (canonicalKey env) (sessionID s) (fst (snd (snd (rpcNotify env s req w)))) \<and>
   sessionID (fst (rpcNotify env s req w)) =
     foldl (token_step (canonicalKey env)) (sessionID s) (fst (snd (snd (rpcNotify env s req w))))"
  by (auto simp: rpcNotify_def Let_def token_step_def newPOST_session
        split: sum.splits option.splits prod.splits)

lemma mcp_run_token:
  "carries_token (canonicalKey env) (sessionID s) (fst (snd (mcp_run env s ops w))) \<and>
   sessionID (fst (mcp_run env s ops w)) =
     foldl (token_step (canonicalKey env)) (sessionID s) (fst (snd (mcp_run env s ops w)))"
proof (induction ops arbitrary: s w)
  case Nil
  show ?case by simp
next
  case (Cons x ops)
  show ?case
  proof (cases x)
    case (CallOp req)
    obtain s1 r l1 w1 where c: "rpcCall env s req w = (s1, r, l1, w1)"
      by (metis prod_cases4)
    obtain s2 l2 w2 where m: "mcp_run env s1 ops w1 = (s2, l2, w2)"
      by (metis prod_cases3)
    from rpcCall_token[of env s req w] c
    have 1: "carries_token (canonicalKey env) (sessionID s) l1"
      "sessionID s1 = foldl (token_step (canonicalKey env)) (sessionID s) l1" by simp_all
    from Cons.IH[of s1 w1] m
    have 2: "carries_token (canonicalKey env) (sessionID s1) l2"
      "sessionID s2 = foldl (token_step (canonicalKey env)) (sessionID s1) l2" by simp_all
    from 1 2 show ?thesis by (simp add: CallOp c m carries_token_append)
  next
    case (NotifyOp req)
    obtain s1 r l1 w1 where c: "rpcNotify env s req w = (s1, r, l1, w1)"
      by (metis prod_cases4)
    obtain s2 l2 w2 where m: "mcp_run env s1 ops w1 = (s2, l2, w2)"
      by (metis prod_cases3)
    from rpcNotify_token[of env s req w] c
    have 1: "carries_token (canonicalKey env) (sessionID s) l1"
      "sessionID s1 = foldl (token_step (canonicalKey env)) (sessionID s) l1" by simp_all
    from Cons.IH[of s1 w1] m
    have 2: "carries_token (canonicalKey env) (sessionID s1) l2"
      "sessionID s2 = foldl (token_step (canonicalKey env)) (sessionID s1) l2" by simp_all
    from 1 2 show ?thesis by (simp add: NotifyOp c m carries_token_append)
  qed
qed

text \<open>
  C9, as the code has it. Over every sequence of calls and notifications of one
  connection, every request that goes out carries the stored session token whenever
  one is stored, and the stored token is the last non-empty one that a response with
  status 200 to an \<open>rpcCall\<close> carried (the one stored at the start when there was
  none): such a token replaces the stored one, while the responses to notifications
  and the exchanges that fail leave it as it is.
\<close>

theorem session_token_echo:
  "carries_token (canonicalKey env) (sessionID s) (fst (snd (mcp_run env s ops w))) \<and>
   sessionID (fst (mcp_run env s ops w)) =
     foldl (token_step (canonicalKey env)) (sessionID s) (fst (snd (mcp_run env s ops w)))"
  by (rule mcp_run_token)

lemma session_run_tokens:
  "tokens_sent (\<lambda>k. k)
     (fst (snd (mcp_run session_env session_server
        [CallOp (rpc_request ''initialize''), NotifyOp (rpc_notification ''notifications/initialized''),
         CallOp (rpc_request ''tools/list''), CallOp (rpc_request ''tools/call'')] 0))) =
     [[], ''A'', ''A'', ''A'']"
  by (simp add: tokens_sent_def rpcCall_def rpcNotify_def session_env_def session_server_def
        session_response_def newPOST_def header_Get_def header_Set_def rpc_request_def
        rpc_notification_def Let_def)

theorem session_token_echo_witness:
  "tokens_sent (canonicalKey session_env)
     (fst (snd (mcp_run session_env session_server
        [CallOp (rpc_request ''initialize''), NotifyOp (rpc_notification ''notifications/initialized''),
         CallOp (rpc_request ''tools/list''), CallOp (rpc_request ''tools/call'')] 0))) =
     [[], ''A'', ''A'', ''A''] \<and>
   carries_token (canonicalKey session_env) (sessionID session_server)
     (fst (snd (mcp_run session_env session_server
        [CallOp (rpc_request ''initialize''), NotifyOp (rpc_notification ''notifications/initialized''),
         CallOp (rpc_request ''tools/list''), CallOp (rpc_request ''tools/call'')] 0))) \<and>
   sessionID (fst (mcp_run session_env session_server
        [CallOp (rpc_request ''initialize''), NotifyOp (rpc_notification ''notifications/initialized''),
         CallOp (rpc_request ''tools/list''), CallOp (rpc_request ''tools/call'')] 0)) = ''A''"
proof -
  let ?ops = "[CallOp (rpc_request ''initialize''), NotifyOp (rpc_notification ''notifications/initialized''),
         CallOp (rpc_request ''tools/list''), CallOp (rpc_request ''tools/call'')]"
  have k: "canonicalKey session_env = (\<lambda>k. k)" by (simp add: session_env_def)
  have f: "foldl (token_step (\<lambda>k. k)) (sessionID session_server)
             (fst (snd (mcp_run session_env session_server ?ops 0))) = ''A''"
    by (simp add: token_step_def rpcCall_def rpcNotify_def session_env_def session_server_def
        session_response_def newPOST_def header_Get_def header_Set_def rpc_request_def
        rpc_notification_def Let_def)
  from session_token_echo[of session_env session_server ?ops 0] session_run_tokens f
  show ?thesis unfolding k by simp
qed

theorem notification_token_counterexample:
  "tokens_received (\<lambda>k. k)
     (fst (snd (mcp_run session_env session_server
        [NotifyOp (rpc_notification ''notifications/initialized''),
         CallOp (rpc_request ''tools/list'')] 0))) = [''A'', ''B''] \<and>
   tokens_sent (\<lambda>k. k)
     (fst (snd (mcp_run session_env session_server
        [NotifyOp (rpc_notification ''notifications/initialized''),
         CallOp (rpc_request ''tools/list'')] 0))) = [[], []]"
  by (simp add: tokens_sent_def tokens_received_def rpcCall_def rpcNotify_def session_env_def
        session_server_def session_response_def newPOST_def header_Get_def header_Set_def
        rpc_request_def rpc_notification_def Let_def)

section \<open>The tool-calling loops: one round of tool calls\<close>

declare doSubAgentWithTools_loop.simps [simp del]

lemma length_toolOutcomes: "length (toolOutcomes exec tcs w) = length tcs"
  by (induction tcs arbitrary: w) (auto split: prod.splits)

lemma subAgent_execTools_messages:
  "fst (subAgent_execTools exec cap tcs messages w) =
     messages @ map2 (\<lambda>tc res. toolMessage tc (capText cap (toolText res))) tcs
                  (toolOutcomes exec tcs w)"
  by (induction tcs arbitrary: messages w)
     (auto split: prod.splits simp: Let_def toolMessage_def capText_def toolText_def)

lemma runQuery_execTools_messages:
  "fst (runQuery_execTools exec tcs messages w) =
     messages @ map2 (\<lambda>tc res. toolMessage tc (toolText res)) tcs (toolOutcomes exec tcs w)"
  by (induction tcs arbitrary: messages w)
     (auto split: prod.splits simp: Let_def toolMessage_def toolText_def)

lemma map2_toolMessage_shape:
  "length outs = length tcs \<Longrightarrow>
   map (\<lambda>t. (Role t, ToolCalls t, ToolCallID t)) (map2 (\<lambda>tc res. toolMessage tc (f res)) tcs outs) =
     map (\<lambda>tc. (''tool'', [], ID tc)) tcs"
  by (induction tcs outs rule: list_induct2') (auto simp: toolMessage_def)

lemma round_appended_tools:
  "length outs = length (sr_ToolCalls result) \<Longrightarrow>
   round_appended messages result
     ((messages @ [assistantMessage result]) @
      map2 (\<lambda>tc res. toolMessage tc (f res)) (sr_ToolCalls result) outs)"
  unfolding round_appended_def
  using map2_toolMessage_shape[of outs "sr_ToolCalls result" f] by simp

lemma well_paired_append:
  "well_paired xs \<Longrightarrow> well_paired ys \<Longrightarrow> well_paired (xs @ ys)"
proof (induction xs rule: well_paired.induct)
  case 1
  then show ?case by simp
next
  case (2 m ms)
  show ?case
  proof (cases "ToolCalls m \<noteq> []")
    case True
    with "2.prems" have k: "length (ToolCalls m) \<le> length ms"
      and tk: "map (\<lambda>t. (Role t, ToolCallID t)) (take (length (ToolCalls m)) ms) =
               map (\<lambda>tc. (''tool'', ID tc)) (ToolCalls m)"
      and rest: "well_paired (drop (length (ToolCalls m)) ms)"
      by simp_all
    from "2.IH"(1)[OF True rest "2.prems"(2)]
    have "well_paired (drop (length (ToolCalls m)) ms @ ys)" .
    with True k tk show ?thesis by simp
  next
    case False
    with "2.prems" have "Role m \<noteq> ''tool''" and "well_paired ms" by simp_all
    with "2.IH"(2)[OF _ _ "2.prems"(2)] False show ?thesis by simp
  qed
qed

lemma well_paired_round:
  assumes "length outs = length (sr_ToolCalls result)" and "sr_ToolCalls result \<noteq> []"
  shows "well_paired (assistantMessage result #
           map2 (\<lambda>tc res. toolMessage tc (f res)) (sr_ToolCalls result) outs)"
proof -
  let ?ts = "map2 (\<lambda>tc res. toolMessage tc (f res)) (sr_ToolCalls result) outs"
  have len: "length ?ts = length (sr_ToolCalls result)" using assms(1) by simp
  have "map (\<lambda>t. (Role t, ToolCalls t, ToolCallID t)) ?ts =
        map (\<lambda>tc. (''tool'', [], ID tc)) (sr_ToolCalls result)"
    using assms(1) by (rule map2_toolMessage_shape)
  then have "map (\<lambda>x. (fst x, snd (snd x))) (map (\<lambda>t. (Role t, ToolCalls t, ToolCallID t)) ?ts) =
        map (\<lambda>x. (fst x, snd (snd x))) (map (\<lambda>tc. (''tool'', [], ID tc)) (sr_ToolCalls result))"
    by simp
  then have shape: "map (\<lambda>t. (Role t, ToolCallID t)) ?ts =
        map (\<lambda>tc. (''tool'', ID tc)) (sr_ToolCalls result)"
    by (simp add: comp_def)
  show ?thesis
    using assms(2) len shape by (simp add: assistantMessage_def)
qed

lemma well_paired_after_round:
  assumes "well_paired messages" and "length outs = length (sr_ToolCalls result)"
    and "sr_ToolCalls result \<noteq> []"
  shows "well_paired ((messages @ [assistantMessage result]) @
           map2 (\<lambda>tc res. toolMessage tc (f res)) (sr_ToolCalls result) outs)"
  using well_paired_append[OF assms(1) well_paired_round[OF assms(2,3)]] by simp
section \<open>The tool-calling loops: the exchanges of doSubAgentWithTools\<close>

lemma subAgent_log_hd:
  "fst (doSubAgentWithTools_loop env model toolDefs maxTokens contextLimit maxRounds cap exec
          rnd messages w) \<noteq> [] \<and>
   Messages (fst (hd (fst (doSubAgentWithTools_loop env model toolDefs maxTokens contextLimit
          maxRounds cap exec rnd messages w)))) = messages"
  by (subst (1 2) doSubAgentWithTools_loop.simps)
     (auto simp: Let_def split: prod.splits sum.splits)

lemma subAgent_log_capped:
  "list_all (\<lambda>x. MaxTokens (fst x) = capMaxTokens contextLimit maxTokens (Messages (fst x)))
     (fst (doSubAgentWithTools_loop env model toolDefs maxTokens contextLimit maxRounds cap exec
             rnd messages w))"
proof (induction env model toolDefs maxTokens contextLimit maxRounds cap exec rnd messages w
       rule: doSubAgentWithTools_loop.induct)
  case (1 env model toolDefs maxTokens contextLimit maxRounds cap exec rnd messages w)
  show ?case
    apply (subst doSubAgentWithTools_loop.simps)
    using 1 by (auto simp: Let_def split: prod.splits sum.splits)
qed

lemma subAgent_log_length:
  "length (fst (doSubAgentWithTools_loop env model toolDefs maxTokens contextLimit maxRounds cap
             exec rnd messages w)) \<le> nat (maxRounds - rnd) + 1"
proof (induction env model toolDefs maxTokens contextLimit maxRounds cap exec rnd messages w
       rule: doSubAgentWithTools_loop.induct)
  case (1 env model toolDefs maxTokens contextLimit maxRounds cap exec rnd messages w)
  let ?L = "doSubAgentWithTools_loop env model toolDefs maxTokens contextLimit maxRounds cap exec"
  let ?req = "\<lparr>Model = model, Messages = messages, Tools = toolDefs, Stream = True,
               MaxTokens = capMaxTokens contextLimit maxTokens messages\<rparr>"
  show ?case
  proof (cases "rnd < maxRounds \<and> (\<exists>result w1. doStream env ?req w = (Inr result, w1) \<and>
                  sr_ToolCalls result \<noteq> [])")
    case False
    then show ?thesis
      by (subst doSubAgentWithTools_loop.simps)
         (auto simp: Let_def split: prod.splits sum.splits)
  next
    case True
    then obtain result w1 where lt: "rnd < maxRounds" and
      ds: "doStream env ?req w = (Inr result, w1)" and tc: "sr_ToolCalls result \<noteq> []" by blast
    obtain messages' w2 where ex:
      "subAgent_execTools exec cap (sr_ToolCalls result)
         (messages @ [\<lparr>Role = ''assistant'', Content = sr_Content result,
                        ToolCalls = sr_ToolCalls result, ToolCallID = []\<rparr>]) w1 = (messages', w2)"
      by (cases "subAgent_execTools exec cap (sr_ToolCalls result)
         (messages @ [\<lparr>Role = ''assistant'', Content = sr_Content result,
                        ToolCalls = sr_ToolCalls result, ToolCallID = []\<rparr>]) w1")
    let ?R = "?L (rnd + 1) messages' w2"
    have unf: "?L rnd messages w = ((?req, Inr result) # fst ?R, snd ?R)"
      using lt ds tc ex
      by (subst doSubAgentWithTools_loop.simps) (auto simp: Let_def split: prod.splits)
    from "1.IH"[OF lt refl refl ds[symmetric] refl tc ex[symmetric]]
    have "length (fst ?R) \<le> nat (maxRounds - (rnd + 1)) + 1" .
    then show ?thesis unfolding unf using lt by simp
  qed
qed

lemma subAgent_log_tools:
  "tools_offered (fst (doSubAgentWithTools_loop env model toolDefs maxTokens contextLimit
       maxRounds cap exec rnd messages w)) =
   replicate (length (fst (doSubAgentWithTools_loop env model toolDefs maxTokens contextLimit
       maxRounds cap exec rnd messages w)) - 1) toolDefs @
   [if length (fst (doSubAgentWithTools_loop env model toolDefs maxTokens contextLimit
       maxRounds cap exec rnd messages w)) = nat (maxRounds - rnd) + 1 then [] else toolDefs]"
proof (induction env model toolDefs maxTokens contextLimit maxRounds cap exec rnd messages w
       rule: doSubAgentWithTools_loop.induct)
  case (1 env model toolDefs maxTokens contextLimit maxRounds cap exec rnd messages w)
  let ?L = "doSubAgentWithTools_loop env model toolDefs maxTokens contextLimit maxRounds cap exec"
  let ?req = "\<lparr>Model = model, Messages = messages, Tools = toolDefs, Stream = True,
               MaxTokens = capMaxTokens contextLimit maxTokens messages\<rparr>"
  show ?case
  proof (cases "rnd < maxRounds")
    case False
    then show ?thesis
      by (subst (1 2 3) doSubAgentWithTools_loop.simps)
         (auto simp: Let_def tools_offered_def split: prod.splits sum.splits)
  next
    case True
    obtain resp w1 where ds: "doStream env ?req w = (resp, w1)" by (cases "doStream env ?req w")
    show ?thesis
    proof (cases resp)
      case (Inl err)
      with True ds show ?thesis
        by (subst (1 2 3) doSubAgentWithTools_loop.simps)
           (auto simp: Let_def tools_offered_def)
    next
      case (Inr result)
      show ?thesis
      proof (cases "sr_ToolCalls result = []")
        case True
        with \<open>rnd < maxRounds\<close> ds Inr show ?thesis
          by (subst (1 2 3) doSubAgentWithTools_loop.simps)
             (auto simp: Let_def tools_offered_def)
      next
        case False
        obtain messages' w2 where ex:
          "subAgent_execTools exec cap (sr_ToolCalls result)
             (messages @ [\<lparr>Role = ''assistant'', Content = sr_Content result,
                            ToolCalls = sr_ToolCalls result, ToolCallID = []\<rparr>]) w1 = (messages', w2)"
          by (cases "subAgent_execTools exec cap (sr_ToolCalls result)
             (messages @ [\<lparr>Role = ''assistant'', Content = sr_Content result,
                            ToolCalls = sr_ToolCalls result, ToolCallID = []\<rparr>]) w1")
        let ?log' = "fst (?L (rnd + 1) messages' w2)"
        have unf: "fst (?L rnd messages w) = (?req, Inr result) # ?log'"
          using \<open>rnd < maxRounds\<close> ds Inr False ex
          by (subst doSubAgentWithTools_loop.simps) (auto simp: Let_def split: prod.splits)
        have ne: "?log' \<noteq> []" using subAgent_log_hd[of env model toolDefs maxTokens
          contextLimit maxRounds cap exec "rnd + 1" messages' w2] by simp
        have IH: "tools_offered ?log' =
            replicate (length ?log' - 1) toolDefs @
            [if length ?log' = nat (maxRounds - (rnd + 1)) + 1 then [] else toolDefs]"
          using "1.IH"[OF \<open>rnd < maxRounds\<close> refl refl ds[symmetric] Inr False ex[symmetric]] .
        have r: "replicate (length ?log') toolDefs = toolDefs # replicate (length ?log' - 1) toolDefs"
          using ne by (cases ?log') auto
        have n: "(length ?log' + 1 = nat (maxRounds - rnd) + 1) =
                 (length ?log' = nat (maxRounds - (rnd + 1)) + 1)"
          using \<open>rnd < maxRounds\<close> by auto
        have "tools_offered (fst (?L rnd messages w)) = toolDefs # tools_offered ?log'"
          unfolding unf by (simp add: tools_offered_def)
        also have "\<dots> = replicate (length ?log') toolDefs @
            [if length ?log' + 1 = nat (maxRounds - rnd) + 1 then [] else toolDefs]"
          unfolding IH r n by simp
        finally show ?thesis unfolding unf by simp
      qed
    qed
  qed
qed

lemma subAgent_always_calling:
  assumes calls: "\<And>req w. \<exists>result w'. doStream env req w = (Inr result, w') \<and> sr_ToolCalls result \<noteq> []"
  shows "length (fst (doSubAgentWithTools_loop env model toolDefs maxTokens contextLimit
            maxRounds cap exec rnd messages w)) = nat (maxRounds - rnd) + 1 \<and>
         (\<exists>result. snd (last (fst (doSubAgentWithTools_loop env model toolDefs maxTokens
            contextLimit maxRounds cap exec rnd messages w))) = Inr result \<and>
            fst (snd (doSubAgentWithTools_loop env model toolDefs maxTokens
            contextLimit maxRounds cap exec rnd messages w)) =
              Inr (stripThinkTags (sr_Content result)))"
  using calls
proof (induction env model toolDefs maxTokens contextLimit maxRounds cap exec rnd messages w
       rule: doSubAgentWithTools_loop.induct)
  case (1 env model toolDefs maxTokens contextLimit maxRounds cap exec rnd messages w)
  let ?L = "doSubAgentWithTools_loop env model toolDefs maxTokens contextLimit maxRounds cap exec"
  note calls = "1.prems"
  show ?case
  proof (cases "rnd < maxRounds")
    case False
    let ?req = "\<lparr>Model = model, Messages = messages, Tools = [], Stream = True,
               MaxTokens = capMaxTokens contextLimit maxTokens messages\<rparr>"
    from calls[of ?req w] obtain result w1 where
      ds: "doStream env ?req w = (Inr result, w1)" by auto
    have "?L rnd messages w = ([(?req, Inr result)], Inr (stripThinkTags (sr_Content result)), w1)"
      using False ds by (subst doSubAgentWithTools_loop.simps) (simp add: Let_def)
    with False show ?thesis by simp
  next
    case True
    let ?req = "\<lparr>Model = model, Messages = messages, Tools = toolDefs, Stream = True,
               MaxTokens = capMaxTokens contextLimit maxTokens messages\<rparr>"
    from calls[of ?req w] obtain result w1 where
      ds: "doStream env ?req w = (Inr result, w1)" and tc: "sr_ToolCalls result \<noteq> []" by auto
    obtain messages' w2 where ex:
      "subAgent_execTools exec cap (sr_ToolCalls result)
         (messages @ [\<lparr>Role = ''assistant'', Content = sr_Content result,
                        ToolCalls = sr_ToolCalls result, ToolCallID = []\<rparr>]) w1 = (messages', w2)"
      by (cases "subAgent_execTools exec cap (sr_ToolCalls result)
         (messages @ [\<lparr>Role = ''assistant'', Content = sr_Content result,
                        ToolCalls = sr_ToolCalls result, ToolCallID = []\<rparr>]) w1")
    let ?R = "?L (rnd + 1) messages' w2"
    have unf: "?L rnd messages w = ((?req, Inr result) # fst ?R, snd ?R)"
      using True ds tc ex
      by (subst doSubAgentWithTools_loop.simps) (auto simp: Let_def split: prod.splits)
    have ne: "fst ?R \<noteq> []" using subAgent_log_hd[of env model toolDefs maxTokens
      contextLimit maxRounds cap exec "rnd + 1" messages' w2] by simp
    from "1.IH"[OF True refl refl ds[symmetric] refl tc ex[symmetric] calls]
    obtain result' where
      len: "length (fst ?R) = nat (maxRounds - (rnd + 1)) + 1" and
      lst: "snd (last (fst ?R)) = Inr result'" and
      res: "fst (snd ?R) = Inr (stripThinkTags (sr_Content result'))" by blast
    have "length (fst (?L rnd messages w)) = nat (maxRounds - rnd) + 1"
      unfolding unf using len True by simp
    moreover have "snd (last (fst (?L rnd messages w))) = Inr result'"
      unfolding unf using lst ne by simp
    moreover have "fst (snd (?L rnd messages w)) = Inr (stripThinkTags (sr_Content result'))"
      unfolding unf using res by simp
    ultimately show ?thesis by blast
  qed
qed


lemma subAgent_log_paired:
  "paired_rounds (fst (doSubAgentWithTools_loop env model toolDefs maxTokens contextLimit
      maxRounds cap exec rnd messages w)) \<and>
   (well_paired messages \<longrightarrow>
      list_all well_paired (conversations (fst (doSubAgentWithTools_loop env model toolDefs
        maxTokens contextLimit maxRounds cap exec rnd messages w))))"
proof (induction env model toolDefs maxTokens contextLimit maxRounds cap exec rnd messages w
       rule: doSubAgentWithTools_loop.induct)
  case (1 env model toolDefs maxTokens contextLimit maxRounds cap exec rnd messages w)
  let ?L = "doSubAgentWithTools_loop env model toolDefs maxTokens contextLimit maxRounds cap exec"
  let ?req = "\<lparr>Model = model, Messages = messages, Tools = toolDefs, Stream = True,
               MaxTokens = capMaxTokens contextLimit maxTokens messages\<rparr>"
  show ?case
  proof (cases "rnd < maxRounds \<and> (\<exists>result w1. doStream env ?req w = (Inr result, w1) \<and>
                  sr_ToolCalls result \<noteq> [])")
    case False
    then show ?thesis
      by (subst (1 2) doSubAgentWithTools_loop.simps)
         (auto simp: Let_def conversations_def split: prod.splits sum.splits)
  next
    case True
    then obtain result w1 where lt: "rnd < maxRounds" and
      ds: "doStream env ?req w = (Inr result, w1)" and tc: "sr_ToolCalls result \<noteq> []" by blast
    let ?m1 = "messages @ [\<lparr>Role = ''assistant'', Content = sr_Content result,
                        ToolCalls = sr_ToolCalls result, ToolCallID = []\<rparr>]"
    obtain messages' w2 where ex:
      "subAgent_execTools exec cap (sr_ToolCalls result) ?m1 w1 = (messages', w2)"
      by (cases "subAgent_execTools exec cap (sr_ToolCalls result) ?m1 w1")
    let ?R = "?L (rnd + 1) messages' w2"
    have unf: "?L rnd messages w = ((?req, Inr result) # fst ?R, snd ?R)"
      using lt ds tc ex
      by (subst doSubAgentWithTools_loop.simps) (auto simp: Let_def split: prod.splits)
    have hd: "fst ?R \<noteq> []" "Messages (fst (hd (fst ?R))) = messages'"
      using subAgent_log_hd[of env model toolDefs maxTokens
      contextLimit maxRounds cap exec "rnd + 1" messages' w2] by simp_all
    have m': "messages' = (messages @ [assistantMessage result]) @
        map2 (\<lambda>tc res. toolMessage tc (capText cap (toolText res))) (sr_ToolCalls result)
          (toolOutcomes exec (sr_ToolCalls result) w1)"
      using subAgent_execTools_messages[of exec cap "sr_ToolCalls result" ?m1 w1] ex
      by (simp add: assistantMessage_def)
    have ra: "round_appended messages result messages'"
      unfolding m' by (rule round_appended_tools) (rule length_toolOutcomes)
    from "1.IH"[OF lt refl refl ds[symmetric] refl tc ex[symmetric]]
    have IH1: "paired_rounds (fst ?R)"
      and IH2: "well_paired messages' \<longrightarrow> list_all well_paired (conversations (fst ?R))"
      by simp_all
    obtain y rest where yr: "fst ?R = y # rest" using hd(1) by (cases "fst ?R") auto
    with hd(2) have my: "Messages (fst y) = messages'" by simp
    have p: "paired_rounds (fst (?L rnd messages w))"
      unfolding unf using IH1 ra tc my by (simp add: yr)
    have wp: "well_paired messages \<longrightarrow>
        list_all well_paired (conversations (fst (?L rnd messages w)))"
    proof
      assume w0: "well_paired messages"
      have "well_paired messages'"
        unfolding m' by (rule well_paired_after_round[OF w0 length_toolOutcomes tc])
      with IH2 w0 show "list_all well_paired (conversations (fst (?L rnd messages w)))"
        unfolding unf by (simp add: conversations_def)
    qed
    from p wp show ?thesis by simp
  qed
qed
section \<open>The tool-calling loops: the exchanges of runQuery\<close>

lemma runQuery_body_request:
  "fst (fst (runQuery_body env cfg modelID toolDefs exec messages w)) =
     \<lparr>Model = modelID, Messages = messages, Tools = toolDefs, Stream = True,
      MaxTokens = Output (Limit cfg)\<rparr>"
  by (auto simp: runQuery_body_def Let_def split: prod.splits sum.splits)


lemma runQuery_body_goes_on:
  assumes "runQuery_body env cfg modelID toolDefs exec messages w = (x, Inr messages', w')"
  shows "\<exists>result w1. snd x = Inr result \<and> sr_ToolCalls result \<noteq> [] \<and>
           messages' = (messages @ [assistantMessage result]) @
             map2 (\<lambda>tc res. toolMessage tc (toolText res)) (sr_ToolCalls result)
               (toolOutcomes exec (sr_ToolCalls result) w1)"
proof -
  let ?req = "\<lparr>Model = modelID, Messages = messages, Tools = toolDefs, Stream = True,
               MaxTokens = Output (Limit cfg)\<rparr>"
  obtain resp w1 where ds: "doStream env ?req w = (resp, w1)" by (cases "doStream env ?req w")
  from assms ds obtain result where r: "resp = Inr result" and tc: "sr_ToolCalls result \<noteq> []"
    by (cases resp) (auto simp: runQuery_body_def Let_def split: prod.splits if_splits)
  let ?m1 = "messages @ [\<lparr>Role = ''assistant'', Content = sr_Content result,
                        ToolCalls = sr_ToolCalls result, ToolCallID = []\<rparr>]"
  from assms ds r tc have x: "snd x = Inr result"
    and m: "messages' = fst (runQuery_execTools exec (sr_ToolCalls result) ?m1 w1)"
    by (auto simp: runQuery_body_def Let_def split: prod.splits)
  from m have "messages' = (messages @ [assistantMessage result]) @
             map2 (\<lambda>tc res. toolMessage tc (toolText res)) (sr_ToolCalls result)
               (toolOutcomes exec (sr_ToolCalls result) w1)"
    by (simp add: runQuery_execTools_messages assistantMessage_def)
  with x tc show ?thesis by blast
qed

lemma runQuery_passes_hd:
  "fst (runQuery_passes (Suc n) env cfg modelID toolDefs exec messages w) \<noteq> [] \<and>
   Messages (fst (hd (fst (runQuery_passes (Suc n) env cfg modelID toolDefs exec messages w)))) =
     messages"
  using runQuery_body_request[of env cfg modelID toolDefs exec messages w]
  by (auto split: prod.splits sum.splits)

lemma runQuery_passes_max_tokens:
  "max_tokens_sent (fst (runQuery_passes n env cfg modelID toolDefs exec messages w)) =
   replicate (length (fst (runQuery_passes n env cfg modelID toolDefs exec messages w)))
     (Output (Limit cfg))"
proof (induction n arbitrary: messages w)
  case 0
  show ?case by (simp add: max_tokens_sent_def)
next
  case (Suc n)
  obtain x out w' where b: "runQuery_body env cfg modelID toolDefs exec messages w = (x, out, w')"
    by (cases "runQuery_body env cfg modelID toolDefs exec messages w")
  have mx: "MaxTokens (fst x) = Output (Limit cfg)"
    using runQuery_body_request[of env cfg modelID toolDefs exec messages w] b by simp
  show ?case
  proof (cases out)
    case (Inl r)
    with b mx show ?thesis by (simp add: max_tokens_sent_def)
  next
    case (Inr messages')
    with b mx Suc.IH[of messages' w'] show ?thesis
      by (auto simp: max_tokens_sent_def split: prod.splits)
  qed
qed

lemma runQuery_passes_paired:
  "paired_rounds (fst (runQuery_passes n env cfg modelID toolDefs exec messages w)) \<and>
   (well_paired messages \<longrightarrow>
      list_all well_paired
        (conversations (fst (runQuery_passes n env cfg modelID toolDefs exec messages w))))"
proof (induction n arbitrary: messages w)
  case 0
  show ?case by (simp add: conversations_def)
next
  case (Suc n)
  obtain x out w' where b: "runQuery_body env cfg modelID toolDefs exec messages w = (x, out, w')"
    by (cases "runQuery_body env cfg modelID toolDefs exec messages w")
  have mx: "Messages (fst x) = messages"
    using runQuery_body_request[of env cfg modelID toolDefs exec messages w] b by simp
  show ?case
  proof (cases out)
    case (Inl r)
    with b mx show ?thesis by (simp add: conversations_def)
  next
    case (Inr messages')
    let ?R = "runQuery_passes n env cfg modelID toolDefs exec messages' w'"
    have unf: "fst (runQuery_passes (Suc n) env cfg modelID toolDefs exec messages w) = x # fst ?R"
      using b Inr by (simp split: prod.splits)
    from runQuery_body_goes_on[OF b[unfolded Inr]] obtain result w1 where
      x: "snd x = Inr result" and tc: "sr_ToolCalls result \<noteq> []" and
      m': "messages' = (messages @ [assistantMessage result]) @
             map2 (\<lambda>tc res. toolMessage tc (toolText res)) (sr_ToolCalls result)
               (toolOutcomes exec (sr_ToolCalls result) w1)" by blast
    have ra: "round_appended messages result messages'"
      unfolding m' by (rule round_appended_tools) (rule length_toolOutcomes)
    from Suc.IH[of messages' w']
    have IH1: "paired_rounds (fst ?R)"
      and IH2: "well_paired messages' \<longrightarrow> list_all well_paired (conversations (fst ?R))"
      by simp_all
    have p: "paired_rounds (x # fst ?R)"
    proof (cases n)
      case 0
      then show ?thesis by simp
    next
      case (Suc k)
      with runQuery_passes_hd[of k env cfg modelID toolDefs exec messages' w']
      obtain y rest where yr: "fst ?R = y # rest" and my: "Messages (fst y) = messages'"
        by (cases "fst ?R") auto
      with IH1 ra tc x mx show ?thesis by simp
    qed
    have wp: "well_paired messages \<longrightarrow> list_all well_paired (conversations (x # fst ?R))"
    proof
      assume w0: "well_paired messages"
      have "well_paired messages'"
        unfolding m' by (rule well_paired_after_round[OF w0 length_toolOutcomes tc])
      with IH2 w0 mx show "list_all well_paired (conversations (x # fst ?R))"
        by (simp add: conversations_def)
    qed
    from p wp show ?thesis unfolding unf by simp
  qed
qed


lemma runQuery_loop_passes:
  assumes "runQuery_loop env cfg modelID toolDefs exec messages w = Some y"
  shows "runQuery_passes (length (fst y)) env cfg modelID toolDefs exec messages w =
           (fst y, Some (snd y))"
proof (rule runQuery_loop.raw_induct[where P = "\<lambda>env cfg modelID toolDefs exec messages w y.
         runQuery_passes (length (fst y)) env cfg modelID toolDefs exec messages w =
           (fst y, Some (snd y))", OF _ assms])
  fix f :: "('a, 'b) chatEnv \<Rightarrow> modelConfig \<Rightarrow> string \<Rightarrow> 'a list \<Rightarrow> 'b toolExecFunc \<Rightarrow>
            Message list \<Rightarrow> 'b \<Rightarrow> ('a exchange_log \<times> (stream_error + string) \<times> 'b) option"
  fix env cfg modelID toolDefs exec messages w y
  assume IH: "\<And>env cfg modelID toolDefs exec messages w y.
      f env cfg modelID toolDefs exec messages w = Some y \<Longrightarrow>
      runQuery_passes (length (fst y)) env cfg modelID toolDefs exec messages w =
        (fst y, Some (snd y))"
  assume hyp: "(case runQuery_body env cfg modelID toolDefs exec messages w of
      (x, Inl r, w') \<Rightarrow> Some ([x], r, w')
    | (x, Inr messages', w') \<Rightarrow>
        Option.bind (f env cfg modelID toolDefs exec messages' w')
          (\<lambda>(log, r). Some (x # log, r))) = Some y"
  obtain x out w' where b: "runQuery_body env cfg modelID toolDefs exec messages w = (x, out, w')"
    by (cases "runQuery_body env cfg modelID toolDefs exec messages w")
  show "runQuery_passes (length (fst y)) env cfg modelID toolDefs exec messages w =
          (fst y, Some (snd y))"
  proof (cases out)
    case (Inl r)
    with b hyp have "y = ([x], r, w')" by simp
    with b Inl show ?thesis by simp
  next
    case (Inr messages')
    with b hyp obtain y' where f: "f env cfg modelID toolDefs exec messages' w' = Some y'"
      and y: "y = (x # fst y', snd y')"
      by (auto simp: bind_eq_Some_conv split: prod.splits)
    from IH[OF f] have "runQuery_passes (length (fst y')) env cfg modelID toolDefs exec
        messages' w' = (fst y', Some (snd y'))" .
    with b Inr y show ?thesis by simp
  qed
qed

lemma runQuery_passes_loop:
  "runQuery_passes n env cfg modelID toolDefs exec messages w = (log, Some r) \<Longrightarrow>
   runQuery_loop env cfg modelID toolDefs exec messages w = Some (log, r)"
proof (induction n arbitrary: messages w log)
  case 0
  then show ?case by simp
next
  case (Suc n)
  obtain x out w' where b: "runQuery_body env cfg modelID toolDefs exec messages w = (x, out, w')"
    by (cases "runQuery_body env cfg modelID toolDefs exec messages w")
  show ?case
  proof (cases out)
    case (Inl r')
    with b Suc.prems show ?thesis
      by (subst runQuery_loop.simps) auto
  next
    case (Inr messages')
    with b Suc.prems obtain log' where
      p: "runQuery_passes n env cfg modelID toolDefs exec messages' w' = (log', Some r)"
      and l: "log = x # log'"
      by (auto split: prod.splits)
    from Suc.IH[OF p] b Inr l show ?thesis
      by (subst runQuery_loop.simps) simp
  qed
qed

lemma runQuery_loop_never_returns:
  assumes calls: "\<And>req w. \<exists>result w'. doStream env req w = (Inr result, w') \<and> sr_ToolCalls result \<noteq> []"
  shows "runQuery_loop env cfg modelID toolDefs exec messages w = None"
proof (rule ccontr)
  assume "runQuery_loop env cfg modelID toolDefs exec messages w \<noteq> None"
  then obtain y where s: "runQuery_loop env cfg modelID toolDefs exec messages w = Some y" by auto
  have body: "\<exists>x m w'. runQuery_body env cfg modelID toolDefs exec messages w = (x, Inr m, w')"
    for cfg modelID toolDefs exec messages w
    using calls[of "\<lparr>Model = modelID, Messages = messages, Tools = toolDefs, Stream = True,
               MaxTokens = Output (Limit cfg)\<rparr>" w]
    by (auto simp: runQuery_body_def Let_def split: prod.splits)
  have "env = env \<longrightarrow> False"
  proof (rule runQuery_loop.raw_induct[where P = "\<lambda>env' cfg modelID toolDefs exec messages w y.
         env' = env \<longrightarrow> False", OF _ s])
    fix f :: "('a, 'b) chatEnv \<Rightarrow> modelConfig \<Rightarrow> string \<Rightarrow> 'a list \<Rightarrow> 'b toolExecFunc \<Rightarrow>
              Message list \<Rightarrow> 'b \<Rightarrow> ('a exchange_log \<times> (stream_error + string) \<times> 'b) option"
    fix env' cfg modelID toolDefs exec messages w y
    assume IH: "\<And>env' cfg modelID toolDefs exec messages w y.
        f env' cfg modelID toolDefs exec messages w = Some y \<Longrightarrow> env' = env \<longrightarrow> False"
    assume hyp: "(case runQuery_body env' cfg modelID toolDefs exec messages w of
        (x, Inl r, w') \<Rightarrow> Some ([x], r, w')
      | (x, Inr messages', w') \<Rightarrow>
          Option.bind (f env' cfg modelID toolDefs exec messages' w')
            (\<lambda>(log, r). Some (x # log, r))) = Some y"
    show "env' = env \<longrightarrow> False"
    proof
      assume e: "env' = env"
      from body[of cfg modelID toolDefs exec messages w] obtain x m w' where
        b: "runQuery_body env cfg modelID toolDefs exec messages w = (x, Inr m, w')" by blast
      with hyp e obtain y' where "f env' cfg modelID toolDefs exec m w' = Some y'"
        by (auto simp: bind_eq_Some_conv)
      from IH[OF this] e show False by simp
    qed
  qed
  then show False by simp
qed
section \<open>The tool-calling loops: the stub endpoints\<close>

lemma doStream_calling_env:
  "doStream calling_env req k =
     (Inr \<lparr>sr_Content = ''<think>plan</think> working'', sr_ToolCalls = [call_a]\<rparr>, Suc k)"
  by (simp add: doStream_def calling_env_def stream_response_def stub_unmarshal_def
        calling_chunk_def doStream_choice_def tcMap_step_def atomic_fragment_def finalize_def
        map_filter_simps call_a_def Let_def)

lemma runQuery_two_call_env:
  "\<exists>log r. runQuery two_call_env stub_cfg ''m'' ''Weather in Oslo?'' ''You are helpful.''
              [''get_weather''] stub_exec 0 = Some (log, r) \<and>
           runQuery_passes 2 two_call_env stub_cfg ''m'' [''get_weather''] stub_exec
              stub_conversation 0 = (log, Some r)"
proof -
  let ?P = "runQuery_passes 2 two_call_env stub_cfg ''m'' [''get_weather''] stub_exec
              stub_conversation 0"
  have "snd ?P \<noteq> None" by code_simp
  then obtain log r where p: "?P = (log, Some r)" by (cases ?P) auto
  from runQuery_passes_loop[OF p] p show ?thesis
    by (auto simp: runQuery_def stub_conversation_def)
qed

section \<open>The tool-calling loops: the round limit\<close>

text \<open>
  C1, as the code has it. \<open>doSubAgentWithTools\<close> always returns, after at most
  \<open>maxRounds\<close> rounds with the tool definitions and, only when all of them were
  answered with tool calls, one more request without tool definitions: it makes at most
  \<open>maxRounds + 1\<close> requests, every request but the last carries the tool
  definitions, and the last one carries them unless it is request number
  \<open>maxRounds + 1\<close>. Against a model that answers every request with a tool call it
  makes exactly \<open>maxRounds\<close> requests with the tool definitions and then one without
  them, and returns the text of the answer to that one with the thinking blocks
  stripped. The loop of \<open>runQuery\<close> has no round limit.
\<close>

theorem subAgent_round_limit:
  "length (fst (doSubAgentWithTools env model messages toolDefs maxTokens contextLimit maxRounds
             maxToolResultChars exec w)) \<le> nat maxRounds + 1 \<and>
   tools_offered (fst (doSubAgentWithTools env model messages toolDefs maxTokens contextLimit
             maxRounds maxToolResultChars exec w)) =
     replicate (length (fst (doSubAgentWithTools env model messages toolDefs maxTokens
             contextLimit maxRounds maxToolResultChars exec w)) - 1) toolDefs @
     [if length (fst (doSubAgentWithTools env model messages toolDefs maxTokens contextLimit
             maxRounds maxToolResultChars exec w)) = nat maxRounds + 1 then [] else toolDefs] \<and>
   ((\<forall>req k. \<exists>result k'. doStream env req k = (Inr result, k') \<and> sr_ToolCalls result \<noteq> []) \<longrightarrow>
      tools_offered (fst (doSubAgentWithTools env model messages toolDefs maxTokens contextLimit
             maxRounds maxToolResultChars exec w)) = replicate (nat maxRounds) toolDefs @ [[]] \<and>
      (\<exists>result. snd (last (fst (doSubAgentWithTools env model messages toolDefs maxTokens
             contextLimit maxRounds maxToolResultChars exec w))) = Inr result \<and>
         fst (snd (doSubAgentWithTools env model messages toolDefs maxTokens contextLimit
             maxRounds maxToolResultChars exec w)) = Inr (stripThinkTags (sr_Content result))))"
proof -
  let ?D = "doSubAgentWithTools env model messages toolDefs maxTokens contextLimit maxRounds
             maxToolResultChars exec w"
  have len: "length (fst ?D) \<le> nat maxRounds + 1"
    unfolding doSubAgentWithTools_def
    using subAgent_log_length[of env model toolDefs maxTokens contextLimit maxRounds
            maxToolResultChars exec 0 messages w] by simp
  have tools: "tools_offered (fst ?D) =
     replicate (length (fst ?D) - 1) toolDefs @
     [if length (fst ?D) = nat maxRounds + 1 then [] else toolDefs]"
    unfolding doSubAgentWithTools_def
    using subAgent_log_tools[of env model toolDefs maxTokens contextLimit maxRounds
            maxToolResultChars exec 0 messages w] by simp
  have calling: "tools_offered (fst ?D) = replicate (nat maxRounds) toolDefs @ [[]] \<and>
      (\<exists>result. snd (last (fst ?D)) = Inr result \<and>
         fst (snd ?D) = Inr (stripThinkTags (sr_Content result)))"
    if calls: "\<forall>req k. \<exists>result k'. doStream env req k = (Inr result, k') \<and> sr_ToolCalls result \<noteq> []"
  proof -
    from calls have c: "\<And>req k. \<exists>result k'. doStream env req k = (Inr result, k') \<and>
        sr_ToolCalls result \<noteq> []" by blast
    from subAgent_always_calling[of env model toolDefs maxTokens contextLimit maxRounds
            maxToolResultChars exec 0 messages w, OF c]
    have l: "length (fst ?D) = nat maxRounds + 1"
      and r: "\<exists>result. snd (last (fst ?D)) = Inr result \<and>
         fst (snd ?D) = Inr (stripThinkTags (sr_Content result))"
      unfolding doSubAgentWithTools_def by simp_all
    from tools l have "tools_offered (fst ?D) = replicate (nat maxRounds) toolDefs @ [[]]"
      by simp
    with r show ?thesis by blast
  qed
  from len tools calling show ?thesis by blast
qed

theorem subAgent_round_limit_witness:
  "(\<forall>req k. \<exists>result k'. doStream calling_env req k = (Inr result, k') \<and>
      sr_ToolCalls result \<noteq> []) \<and>
   tools_offered (fst (doSubAgentWithTools calling_env ''m'' stub_conversation [''get_weather'']
      4096 0 2 0 stub_exec 0)) = [[''get_weather''], [''get_weather''], []] \<and>
   fst (snd (doSubAgentWithTools calling_env ''m'' stub_conversation [''get_weather'']
      4096 0 2 0 stub_exec 0)) = Inr ''working'' \<and>
   snd (snd (doSubAgentWithTools calling_env ''m'' stub_conversation [''get_weather'']
      4096 0 2 0 stub_exec 0)) = 3"
proof -
  let ?D = "doSubAgentWithTools calling_env ''m'' stub_conversation [''get_weather'']
      4096 0 2 0 stub_exec 0"
  have calls: "\<forall>req k. \<exists>result k'. doStream calling_env req k = (Inr result, k') \<and>
      sr_ToolCalls result \<noteq> []"
    by (simp add: doStream_calling_env)
  from subAgent_round_limit[of calling_env "''m''" stub_conversation "[''get_weather'']"
         4096 0 2 0 stub_exec 0] calls
  have "tools_offered (fst ?D) = replicate (nat 2) [''get_weather''] @ [[]]" by blast
  then have t: "tools_offered (fst ?D) = [[''get_weather''], [''get_weather''], []]"
    by (simp add: numeral_2_eq_2)
  have r: "fst (snd ?D) = Inr ''working''" by code_simp
  have k: "snd (snd ?D) = 3" by code_simp
  from calls t r k show ?thesis by blast
qed

theorem runQuery_unbounded_counterexample:
  "runQuery calling_env stub_cfg ''m'' ''Weather in Oslo?'' ''You are helpful.''
     [''get_weather''] stub_exec 0 = None \<and>
   tools_offered (fst (runQuery_passes 4 calling_env stub_cfg ''m'' [''get_weather''] stub_exec
     stub_conversation 0)) =
     [[''get_weather''], [''get_weather''], [''get_weather''], [''get_weather'']] \<and>
   snd (runQuery_passes 4 calling_env stub_cfg ''m'' [''get_weather''] stub_exec
     stub_conversation 0) = None"
proof -
  have "runQuery calling_env stub_cfg ''m'' ''Weather in Oslo?'' ''You are helpful.''
     [''get_weather''] stub_exec 0 = None"
    unfolding runQuery_def
    by (rule runQuery_loop_never_returns) (simp add: doStream_calling_env call_a_def)
  moreover have "tools_offered (fst (runQuery_passes 4 calling_env stub_cfg ''m''
     [''get_weather''] stub_exec stub_conversation 0)) =
     [[''get_weather''], [''get_weather''], [''get_weather''], [''get_weather'']]"
    by code_simp
  moreover have "snd (runQuery_passes 4 calling_env stub_cfg ''m'' [''get_weather''] stub_exec
     stub_conversation 0) = None"
    by code_simp
  ultimately show ?thesis by blast
qed

section \<open>The tool-calling loops: tool messages follow their calls\<close>

text \<open>
  C2. In both loops every request that follows a request answered with tool calls is
  made with the conversation of that request, then the assistant message with the
  calls, then exactly one message of role \<open>tool\<close> for each call, in the order of the
  calls and with the id of its call, and nothing else. So when the conversation that a
  loop starts from has its tool messages paired with their calls (as the one
  \<open>runQuery\<close> starts from has), the conversation of every request has. For
  \<open>runQuery\<close> this is said of the first \<open>n\<close> passes of the loop, for every
  \<open>n\<close>, and of a run that returns.
\<close>

theorem tool_messages_paired:
  "paired_rounds (fst (doSubAgentWithTools env model messages toolDefs maxTokens contextLimit
      maxRounds maxToolResultChars exec w)) \<and>
   paired_rounds (fst (runQuery_passes n env cfg modelID toolDefs exec messages w)) \<and>
   (well_paired messages \<longrightarrow>
      list_all well_paired (conversations (fst (doSubAgentWithTools env model messages toolDefs
        maxTokens contextLimit maxRounds maxToolResultChars exec w))) \<and>
      list_all well_paired
        (conversations (fst (runQuery_passes n env cfg modelID toolDefs exec messages w)))) \<and>
   (runQuery env cfg modelID query systemPrompt toolDefs exec w = Some (log, r) \<longrightarrow>
      paired_rounds log \<and> list_all well_paired (conversations log))"
proof -
  let ?start = "[\<lparr>Role = ''system'', Content = systemPrompt, ToolCalls = [], ToolCallID = []\<rparr>,
                 \<lparr>Role = ''user'', Content = query, ToolCalls = [], ToolCallID = []\<rparr>]"
  have sub: "paired_rounds (fst (doSubAgentWithTools env model messages toolDefs maxTokens
      contextLimit maxRounds maxToolResultChars exec w)) \<and>
    (well_paired messages \<longrightarrow>
      list_all well_paired (conversations (fst (doSubAgentWithTools env model messages toolDefs
        maxTokens contextLimit maxRounds maxToolResultChars exec w))))"
    unfolding doSubAgentWithTools_def by (rule subAgent_log_paired)
  note passes = runQuery_passes_paired[of n env cfg modelID toolDefs exec messages w]
  have run: "paired_rounds log \<and> list_all well_paired (conversations log)"
    if s: "runQuery env cfg modelID query systemPrompt toolDefs exec w = Some (log, r)"
  proof -
    from s have "runQuery_passes (length log) env cfg modelID toolDefs exec ?start w =
        (log, Some r)"
      unfolding runQuery_def using runQuery_loop_passes by fastforce
    moreover have "well_paired ?start" by simp
    ultimately show ?thesis
      using runQuery_passes_paired[of "length log" env cfg modelID toolDefs exec ?start w]
      by simp
  qed
  from sub passes run show ?thesis by blast
qed

theorem tool_messages_paired_witness:
  "well_paired stub_conversation \<and>
   map roles_and_ids (conversations (fst (doSubAgentWithTools two_call_env ''m''
      stub_conversation [''get_weather''] 4096 4096 5 12 stub_exec 0))) =
     [[(''system'', []), (''user'', [])],
      [(''system'', []), (''user'', []), (''assistant'', []), (''tool'', ''a''),
       (''tool'', ''b'')]] \<and>
   paired_rounds (fst (doSubAgentWithTools two_call_env ''m''
      stub_conversation [''get_weather''] 4096 4096 5 12 stub_exec 0)) \<and>
   list_all well_paired (conversations (fst (doSubAgentWithTools two_call_env ''m''
      stub_conversation [''get_weather''] 4096 4096 5 12 stub_exec 0))) \<and>
   (case runQuery two_call_env stub_cfg ''m'' ''Weather in Oslo?'' ''You are helpful.''
           [''get_weather''] stub_exec 0 of
      None \<Rightarrow> False
    | Some y \<Rightarrow>
        map roles_and_ids (conversations (fst y)) =
          [[(''system'', []), (''user'', [])],
           [(''system'', []), (''user'', []), (''assistant'', []), (''tool'', ''a''),
            (''tool'', ''b'')]] \<and>
        paired_rounds (fst y) \<and> list_all well_paired (conversations (fst y)))"
proof -
  let ?D = "doSubAgentWithTools two_call_env ''m''
      stub_conversation [''get_weather''] 4096 4096 5 12 stub_exec 0"
  have wp: "well_paired stub_conversation" by (simp add: stub_conversation_def)
  have shape: "map roles_and_ids (conversations (fst ?D)) =
     [[(''system'', []), (''user'', [])],
      [(''system'', []), (''user'', []), (''assistant'', []), (''tool'', ''a''),
       (''tool'', ''b'')]]"
    by code_simp
  from runQuery_two_call_env obtain log r where
    rq: "runQuery two_call_env stub_cfg ''m'' ''Weather in Oslo?'' ''You are helpful.''
              [''get_weather''] stub_exec 0 = Some (log, r)" and
    p: "runQuery_passes 2 two_call_env stub_cfg ''m'' [''get_weather''] stub_exec
              stub_conversation 0 = (log, Some r)" by blast
  have "map roles_and_ids (conversations (fst (runQuery_passes 2 two_call_env stub_cfg ''m''
          [''get_weather''] stub_exec stub_conversation 0))) =
     [[(''system'', []), (''user'', [])],
      [(''system'', []), (''user'', []), (''assistant'', []), (''tool'', ''a''),
       (''tool'', ''b'')]]"
    by code_simp
  with p have shape2: "map roles_and_ids (conversations log) =
     [[(''system'', []), (''user'', [])],
      [(''system'', []), (''user'', []), (''assistant'', []), (''tool'', ''a''),
       (''tool'', ''b'')]]" by simp
  from tool_messages_paired[of two_call_env "''m''" stub_conversation "[''get_weather'']"
          4096 4096 5 12 stub_exec 0 2 stub_cfg "''m''" "''Weather in Oslo?''"
          "''You are helpful.''" log r] wp rq
  have "paired_rounds (fst ?D)" and "list_all well_paired (conversations (fst ?D))"
    and "paired_rounds log" and "list_all well_paired (conversations log)"
    by blast+
  with wp shape shape2 rq show ?thesis by simp
qed

section \<open>The tool-calling loops: the output budget of each request\<close>

text \<open>
  C6, as the code has it. Every request of \<open>doSubAgentWithTools\<close>, the first one and
  the one without tool definitions included, is made with \<open>max_tokens\<close> equal to
  \<open>capMaxTokens\<close> of the context limit, the output size and the conversation of
  that request. Every request of \<open>runQuery\<close> is made with the configured output size
  \<open>cfg.Limit.Output\<close> itself, whatever the conversation has grown to.
\<close>

theorem subAgent_requests_capped:
  "max_tokens_sent (fst (doSubAgentWithTools env model messages toolDefs maxTokens contextLimit
      maxRounds maxToolResultChars exec w)) =
     max_tokens_capped contextLimit maxTokens (fst (doSubAgentWithTools env model messages
       toolDefs maxTokens contextLimit maxRounds maxToolResultChars exec w)) \<and>
   max_tokens_sent (fst (runQuery_passes n env cfg modelID toolDefs exec messages w)) =
     replicate (length (fst (runQuery_passes n env cfg modelID toolDefs exec messages w)))
       (Output (Limit cfg)) \<and>
   (runQuery env cfg modelID query systemPrompt toolDefs exec w = Some (log, r) \<longrightarrow>
      max_tokens_sent log = replicate (length log) (Output (Limit cfg)))"
proof -
  let ?start = "[\<lparr>Role = ''system'', Content = systemPrompt, ToolCalls = [], ToolCallID = []\<rparr>,
                 \<lparr>Role = ''user'', Content = query, ToolCalls = [], ToolCallID = []\<rparr>]"
  have sub: "max_tokens_sent (fst (doSubAgentWithTools env model messages toolDefs maxTokens
      contextLimit maxRounds maxToolResultChars exec w)) =
     max_tokens_capped contextLimit maxTokens (fst (doSubAgentWithTools env model messages
       toolDefs maxTokens contextLimit maxRounds maxToolResultChars exec w))"
    unfolding doSubAgentWithTools_def max_tokens_sent_def max_tokens_capped_def
    using subAgent_log_capped[of contextLimit maxTokens env model toolDefs maxRounds
            maxToolResultChars exec 0 messages w]
    by (simp add: list_all_iff)
  note passes = runQuery_passes_max_tokens[of n env cfg modelID toolDefs exec messages w]
  have run: "max_tokens_sent log = replicate (length log) (Output (Limit cfg))"
    if s: "runQuery env cfg modelID query systemPrompt toolDefs exec w = Some (log, r)"
  proof -
    from s have "runQuery_passes (length log) env cfg modelID toolDefs exec ?start w =
        (log, Some r)"
      unfolding runQuery_def using runQuery_loop_passes by fastforce
    then show ?thesis
      using runQuery_passes_max_tokens[of "length log" env cfg modelID toolDefs exec ?start w]
      by simp
  qed
  from sub passes run show ?thesis by blast
qed

theorem subAgent_requests_capped_witness:
  "max_tokens_sent (fst (doSubAgentWithTools two_call_env ''m'' stub_conversation
      [''get_weather''] 4096 4096 5 12 stub_exec 0)) = [4030, 3976] \<and>
   max_tokens_capped 4096 4096 (fst (doSubAgentWithTools two_call_env ''m'' stub_conversation
      [''get_weather''] 4096 4096 5 12 stub_exec 0)) = [4030, 3976] \<and>
   (case runQuery two_call_env stub_cfg ''m'' ''Weather in Oslo?'' ''You are helpful.''
           [''get_weather''] stub_exec 0 of
      None \<Rightarrow> False
    | Some y \<Rightarrow> max_tokens_sent (fst y) = [4096, 4096])"
proof -
  let ?D = "doSubAgentWithTools two_call_env ''m'' stub_conversation
      [''get_weather''] 4096 4096 5 12 stub_exec 0"
  have sent: "max_tokens_sent (fst ?D) = [4030, 3976]" by code_simp
  from runQuery_two_call_env obtain log r where
    rq: "runQuery two_call_env stub_cfg ''m'' ''Weather in Oslo?'' ''You are helpful.''
              [''get_weather''] stub_exec 0 = Some (log, r)" and
    p: "runQuery_passes 2 two_call_env stub_cfg ''m'' [''get_weather''] stub_exec
              stub_conversation 0 = (log, Some r)" by blast
  have "length (fst (runQuery_passes 2 two_call_env stub_cfg ''m'' [''get_weather''] stub_exec
              stub_conversation 0)) = 2" by code_simp
  with p have l: "length log = 2" by simp
  from subAgent_requests_capped[of two_call_env "''m''" stub_conversation "[''get_weather'']"
          4096 4096 5 12 stub_exec 0 2 stub_cfg "''m''" "''Weather in Oslo?''"
          "''You are helpful.''" log r] rq
  have c: "max_tokens_sent (fst ?D) = max_tokens_capped 4096 4096 (fst ?D)"
    and q: "max_tokens_sent log = replicate (length log) (Output (Limit stub_cfg))"
    by blast+
  from q l have "max_tokens_sent log = [4096, 4096]"
    by (simp add: stub_cfg_def numeral_2_eq_2)
  with sent c rq show ?thesis by simp
qed

theorem runQuery_uncapped_counterexample:
  "(case runQuery two_call_env stub_cfg ''m'' ''Weather in Oslo?'' ''You are helpful.''
           [''get_weather''] stub_exec 0 of
      None \<Rightarrow> False
    | Some y \<Rightarrow>
        max_tokens_sent (fst y) = [4096, 4096] \<and>
        max_tokens_capped (Context (Limit stub_cfg)) (Output (Limit stub_cfg)) (fst y) =
          [4030, 3982] \<and>
        map length (conversations (fst y)) = [2, 5])"
proof -
  let ?P = "runQuery_passes 2 two_call_env stub_cfg ''m'' [''get_weather''] stub_exec
              stub_conversation 0"
  from runQuery_two_call_env obtain log r where
    rq: "runQuery two_call_env stub_cfg ''m'' ''Weather in Oslo?'' ''You are helpful.''
              [''get_weather''] stub_exec 0 = Some (log, r)" and
    p: "?P = (log, Some r)" by blast
  have "max_tokens_sent (fst ?P) = [4096, 4096]" by code_simp
  moreover have "max_tokens_capped (Context (Limit stub_cfg)) (Output (Limit stub_cfg)) (fst ?P) =
          [4030, 3982]" by code_simp
  moreover have "map length (conversations (fst ?P)) = [2, 5]" by code_simp
  ultimately show ?thesis using rq p by simp
qed

section \<open>The tool-calling loops: what a tool call leaves in the conversation\<close>




end
